theory Spec2Isabelle
  imports Main "HOL-Library.Multiset"
begin

section \<open>Football stat visualizer: data model\<close>

text \<open>
  An entry of the dataset is the Python tuple \<^verbatim>\<open>(name, goals)\<close>; the sorts read
  \<^verbatim>\<open>lst[j][1]\<close>, the goal count. Python integers are unbounded, hence \<^typ>\<open>int\<close>.
\<close>

type_synonym entry = "string \<times> int"

section \<open>Sort visualizer\<close>

text \<open>
  \<^verbatim>\<open>bubble_sort\<close> and \<^verbatim>\<open>insertion_sort\<close> are generators that mutate the list object
  \<^verbatim>\<open>draw_info.lst\<close> in place. A run of a generator is modelled by the state its body
  threads through the loops:
  \<^item> \<open>cur\<close> is the current content of the list object (the local \<^verbatim>\<open>lst\<close>);
  \<^item> \<open>steps\<close> records, for every \<^verbatim>\<open>yield True\<close> executed so far, the content of the
    list at that yield, oldest first (what the controller sees after each \<^verbatim>\<open>next\<close>);
  \<^item> \<open>comparisons\<close> and \<open>moves\<close> are ghost counters: the number of goal-count
    comparisons evaluated (line 271, and the second conjunct of the \<^verbatim>\<open>while\<close> test of
    line 292), and the number of swaps (line 272) or shifts (lines 293-294).
  Running the generator to exhaustion executes the whole body, so the state after the
  outer loop is the state at \<^verbatim>\<open>StopIteration\<close>.
\<close>

record sort_run =
  cur :: "entry list"
  comparisons :: nat
  moves :: nat
  steps :: "entry list list"

definition start_run :: "entry list \<Rightarrow> sort_run" where
  "start_run lst = \<lparr>cur = lst, comparisons = 0, moves = 0, steps = []\<rparr>"

text \<open>
  The test shared by both sorts:
  \<^verbatim>\<open>(num1 > num2 and ascending) or (num1 < num2 and not ascending)\<close>.
\<close>

definition out_of_order :: "bool \<Rightarrow> int \<Rightarrow> int \<Rightarrow> bool" where
  "out_of_order ascending num1 num2 \<longleftrightarrow>
     (num1 > num2 \<and> ascending) \<or> (num1 < num2 \<and> \<not> ascending)"

subsection \<open>Bubble sort\<close>

text \<open>
  The body of the inner \<^verbatim>\<open>for j\<close> loop (lines 268-274). The tuple assignment
  \<^verbatim>\<open>lst[j], lst[j + 1] = lst[j + 1], lst[j]\<close> evaluates its right-hand side first.
  Both indices are in range, since \<^verbatim>\<open>j < len(lst) - 1 - i\<close>.
\<close>

definition bubble_inner :: "bool \<Rightarrow> nat \<Rightarrow> sort_run \<Rightarrow> sort_run" where
  "bubble_inner ascending j st =
     (let lst = cur st;
          num1 = snd (lst ! j);
          num2 = snd (lst ! (j + 1));
          st1 = st\<lparr>comparisons := comparisons st + 1\<rparr>
      in if out_of_order ascending num1 num2
         then (let lst' = lst[j := lst ! (j + 1), j + 1 := lst ! j]
               in st1\<lparr>cur := lst', moves := moves st1 + 1, steps := steps st1 @ [lst']\<rparr>)
         else st1)"

text \<open>
  \<^verbatim>\<open>for j in range(len(lst) - 1 - i)\<close>: a \<^verbatim>\<open>range\<close> with a bound \<open>\<le> 0\<close> is empty, which
  truncated subtraction on \<^typ>\<open>nat\<close> reproduces (\<open>[0..<0] = []\<close>).
\<close>

definition bubble_pass :: "bool \<Rightarrow> nat \<Rightarrow> sort_run \<Rightarrow> sort_run" where
  "bubble_pass ascending i st =
     fold (bubble_inner ascending) [0..<length (cur st) - 1 - i] st"

definition bubble_sort :: "entry list \<Rightarrow> bool \<Rightarrow> sort_run" where
  "bubble_sort lst ascending =
     fold (bubble_pass ascending) [0..<length lst - 1] (start_run lst)"

subsection \<open>Insertion sort\<close>

text \<open>
  The \<^verbatim>\<open>while\<close> loop of lines 292-294, by recursion on \<open>j\<close>. Python's \<^verbatim>\<open>and\<close>
  short-circuits: at \<open>j = 0\<close> no goal count is compared. The result is the final \<open>j\<close>
  and the state. The loop starts at \<open>j = i < len(lst)\<close> and reads \<^verbatim>\<open>lst[j - 1]\<close> and writes
  \<^verbatim>\<open>lst[j]\<close> for \<open>0 < j \<le> i\<close> only, so every index is in range.
\<close>

fun shift_loop :: "bool \<Rightarrow> entry \<Rightarrow> nat \<Rightarrow> sort_run \<Rightarrow> nat \<times> sort_run" where
  "shift_loop ascending current 0 st = (0, st)"
| "shift_loop ascending current (Suc j) st =
     (let lst = cur st;
          st1 = st\<lparr>comparisons := comparisons st + 1\<rparr>
      in if out_of_order ascending (snd (lst ! j)) (snd current)
         then shift_loop ascending current j
                (st1\<lparr>cur := lst[Suc j := lst ! j], moves := moves st1 + 1\<rparr>)
         else (Suc j, st1))"

text \<open>The body of the outer \<^verbatim>\<open>for i\<close> loop (lines 290-297).\<close>

definition insertion_outer :: "bool \<Rightarrow> nat \<Rightarrow> sort_run \<Rightarrow> sort_run" where
  "insertion_outer ascending i st =
     (let current = cur st ! i;
          (j, st1) = shift_loop ascending current i st;
          lst' = (cur st1)[j := current]
      in st1\<lparr>cur := lst', steps := steps st1 @ [lst']\<rparr>)"

definition insertion_sort :: "entry list \<Rightarrow> bool \<Rightarrow> sort_run" where
  "insertion_sort lst ascending =
     fold (insertion_outer ascending) [1..<length lst] (start_run lst)"


section \<open>Visualization state\<close>

text \<open>
  The Python exceptions a modelled function can raise. An uncaught exception ends
  \<^verbatim>\<open>main\<close>, so a function that raises returns \<open>Inl\<close> of the error and no state.
\<close>

datatype py_error = ValueError | ZeroDivisionError | JSONDecodeError | TypeError

text \<open>
  The attributes of \<^verbatim>\<open>DrawInformation\<close> that the geometry depends on. The window and
  the fonts are rendering resources and are left out.
\<close>

record draw_information =
  width :: int
  height :: int
  lst :: "entry list"
  min_val :: int
  max_val :: int
  block_width :: int
  block_height :: int
  start_x :: int

definition SIDE_PAD :: int where "SIDE_PAD = 100"
definition TOP_PAD :: int where "TOP_PAD = 150"
definition BOTTOM_PAD :: int where "BOTTOM_PAD = 150"

text \<open>
  \<^verbatim>\<open>min(...)\<close> and \<^verbatim>\<open>max(...)\<close> over a generator: \<^verbatim>\<open>ValueError\<close> on an empty one,
  otherwise the running minimum (maximum) from the first element on.
\<close>

fun py_min :: "int list \<Rightarrow> py_error + int" where
  "py_min [] = Inl ValueError"
| "py_min (v # vs) = Inr (fold min vs v)"

fun py_max :: "int list \<Rightarrow> py_error + int" where
  "py_max [] = Inl ValueError"
| "py_max (v # vs) = Inr (fold max vs v)"

text \<open>
  \<^verbatim>\<open>round(a / b)\<close> and \<^verbatim>\<open>math.floor(a / b)\<close> for integers \<open>a\<close> and \<open>b\<close>. The true
  division \<^verbatim>\<open>/\<close> raises \<^verbatim>\<open>ZeroDivisionError\<close> for \<open>b = 0\<close> and otherwise yields the
  float nearest to the quotient; \<^verbatim>\<open>round\<close> of a float goes to the nearest integer,
  a tie to the even one; \<^verbatim>\<open>math.floor\<close> goes down. Both are computed here on the exact
  quotient, with \<open>div\<close> and \<open>mod\<close> (\<open>div\<close> on \<^typ>\<open>int\<close> rounds down, like \<^verbatim>\<open>//\<close>).
  The float agrees with the exact quotient in its integer part and in whether it is
  below, at or above one half as long as \<open>\<bar>a\<bar> < 2^52\<close>, which covers every window size
  in pixels. The divisor of \<open>round_div\<close> is a list length, so \<open>b \<ge> 0\<close>.
\<close>

definition round_div :: "int \<Rightarrow> int \<Rightarrow> py_error + int" where
  "round_div a b =
     (if b = 0 then Inl ZeroDivisionError
      else let q = a div b; r = a mod b
           in Inr (if 2 * r < b then q
                   else if 2 * r > b then q + 1
                   else if even q then q else q + 1))"

definition floor_div :: "int \<Rightarrow> int \<Rightarrow> py_error + int" where
  "floor_div a b = (if b = 0 then Inl ZeroDivisionError else Inr (a div b))"

text \<open>
  \<^verbatim>\<open>DrawInformation.set_list\<close> (lines 53-68). \<^verbatim>\<open>max_val - min_val or 1\<close> is \<open>1\<close> when
  the difference is \<open>0\<close> and the difference otherwise. The assignment
  \<^verbatim>\<open>self.lst = lst\<close> precedes the \<^verbatim>\<open>min\<close> that may raise; no caller catches the
  exception, so the half-updated object is never observed.
\<close>

definition set_list :: "draw_information \<Rightarrow> entry list \<Rightarrow> py_error + draw_information" where
  "set_list self l =
     (case py_min (map snd l) of Inl e \<Rightarrow> Inl e | Inr mn \<Rightarrow>
     (case py_max (map snd l) of Inl e \<Rightarrow> Inl e | Inr mx \<Rightarrow>
     (case round_div (width self - SIDE_PAD) (int (length l)) of Inl e \<Rightarrow> Inl e | Inr bw \<Rightarrow>
     (case floor_div (height self - TOP_PAD - BOTTOM_PAD)
             (max 1 (if mx - mn = 0 then 1 else mx - mn)) of Inl e \<Rightarrow> Inl e | Inr bh \<Rightarrow>
      Inr (self\<lparr>lst := l, min_val := mn, max_val := mx,
                block_width := bw, block_height := bh, start_x := SIDE_PAD div 2\<rparr>)))))"

text \<open>
  \<^verbatim>\<open>DrawInformation.__init__\<close>: stores the window size and calls \<^verbatim>\<open>set_list\<close>. The
  attributes that \<^verbatim>\<open>set_list\<close> assigns do not exist before; the \<open>0\<close> and \<open>[]\<close> below
  are placeholders that \<^verbatim>\<open>set_list\<close> overwrites.
\<close>

definition DrawInformation :: "int \<Rightarrow> int \<Rightarrow> entry list \<Rightarrow> py_error + draw_information" where
  "DrawInformation w h l =
     set_list \<lparr>width = w, height = h, lst = [], min_val = 0, max_val = 0,
               block_width = 0, block_height = 0, start_x = 0\<rparr> l"

text \<open>
  The rectangle \<^verbatim>\<open>draw_list\<close> draws for the entry at index \<open>i\<close> (lines 215-226):
  \<open>(x, y, width, height)\<close>.
\<close>

definition bar_rect :: "draw_information \<Rightarrow> nat \<Rightarrow> entry \<Rightarrow> int \<times> int \<times> int \<times> int" where
  "bar_rect draw_info i e =
     (let x = start_x draw_info + int i * block_width draw_info;
          y = height draw_info - BOTTOM_PAD - (snd e - min_val draw_info) * block_height draw_info
      in (x, y, block_width draw_info, height draw_info - y))"

definition bar_height :: "draw_information \<Rightarrow> nat \<Rightarrow> entry \<Rightarrow> int" where
  "bar_height draw_info i e = snd (snd (snd (bar_rect draw_info i e)))"


section \<open>Data source adapter\<close>

text \<open>
  What \<^verbatim>\<open>requests.get\<close> returns, as far as the program reads it: the status code and
  the JSON body. \<open>body = None\<close> stands for a body that is not JSON, on which
  \<^verbatim>\<open>response.json()\<close> raises. A JSON body is read through its \<^verbatim>\<open>"response"\<close> key
  only: \<open>response = None\<close> when the key is absent, so that
  \<^verbatim>\<open>data.get("response", [])\<close> is \<open>[]\<close>. Bodies of another shape (not an object, a
  \<^verbatim>\<open>"response"\<close> that is not a list) are outside the model.
\<close>

record 'a api_body =
  response :: "'a list option"

record 'a http_response =
  status_code :: int
  body :: "'a api_body option"

definition get_response :: "'a api_body \<Rightarrow> 'a list" where
  "get_response data = (case response data of None \<Rightarrow> [] | Some items \<Rightarrow> items)"

subsection \<open>Team search\<close>

text \<open>
  One element of the \<^verbatim>\<open>"response"\<close> list of the teams endpoint: \<^verbatim>\<open>main\<close> reads
  \<^verbatim>\<open>results[0]["team"]["id"]\<close> of it.
\<close>

record team =
  id_of_team :: int
  name_of_team :: string

text \<open>
  \<^verbatim>\<open>search_team\<close> (lines 80-100). The server is a function from the searched name (the
  only varying part of the URL) to its response. \<open>reqs\<close> is the log of the requests
  sent so far; each \<^verbatim>\<open>requests.get\<close> appends the name it asks for.
\<close>

definition search_team ::
  "(string \<Rightarrow> team http_response) \<Rightarrow> string \<Rightarrow> string list \<Rightarrow> (py_error + team list) \<times> string list"
where
  "search_team server team_name reqs =
     (let resp = server team_name;
          reqs' = reqs @ [team_name]
      in if status_code resp \<noteq> 200 then (Inr [], reqs')
         else case body resp of
                None \<Rightarrow> (Inl JSONDecodeError, reqs')
              | Some data \<Rightarrow>
                  (let teams = get_response data
                   in if teams = [] then (Inr [], reqs') else (Inr teams, reqs')))"

subsection \<open>Player goals\<close>

text \<open>
  One element of a player's \<^verbatim>\<open>"statistics"\<close> list: \<^verbatim>\<open>stats["goals"]["total"]\<close> and
  \<^verbatim>\<open>stats["games"]["appearences"]\<close>, each a number or \<^verbatim>\<open>null\<close> (\<open>None\<close>).
\<close>

record stats =
  goals_total :: "int option"
  games_appearences :: "int option"

record player =
  player_name :: string
  statistics :: "stats list"

text \<open>\<^verbatim>\<open>v or 0\<close> for a number or \<^verbatim>\<open>None\<close>.\<close>

definition or_0 :: "int option \<Rightarrow> int" where
  "or_0 v = (case v of None \<Rightarrow> 0 | Some n \<Rightarrow> if n = 0 then 0 else n)"

definition total_goals :: "player \<Rightarrow> int" where
  "total_goals p = sum_list (map (\<lambda>s. or_0 (goals_total s)) (statistics p))"

definition total_appearances :: "player \<Rightarrow> int" where
  "total_appearances p = sum_list (map (\<lambda>s. or_0 (games_appearences s)) (statistics p))"

text \<open>The body of \<^verbatim>\<open>for player in players\<close> (lines 140-150).\<close>

definition add_player :: "player \<Rightarrow> entry list \<Rightarrow> entry list" where
  "add_player p goal_list =
     (if total_goals p > 0 \<and> total_appearances p > 0
      then goal_list @ [(player_name p, total_goals p)]
      else goal_list)"

text \<open>
  The \<^verbatim>\<open>while True\<close> loop of \<^verbatim>\<open>fetch_players_by_goals\<close> (lines 118-153). \<open>server\<close> is
  the players endpoint for the team and season of the call: a function from the page
  number to its response. The loop need not end (a server may never send an empty
  page), so it is a partial function: \<open>None\<close> stands for a call that never returns.
\<close>

partial_function (option) fetch_loop ::
  "(nat \<Rightarrow> player http_response) \<Rightarrow> nat \<Rightarrow> entry list \<Rightarrow> (py_error + entry list) option"
where [code]:
  "fetch_loop server page goal_list =
     (let resp = server page
      in if status_code resp \<noteq> 200 then Some (Inr goal_list)
         else case body resp of
                None \<Rightarrow> Some (Inl JSONDecodeError)
              | Some data \<Rightarrow>
                  (let players = get_response data
                   in if players = [] \<and> page = 1 then Some (Inr goal_list)
                      else if players = [] then Some (Inr goal_list)
                      else fetch_loop server (page + 1) (fold add_player players goal_list)))"

text \<open>
  \<^verbatim>\<open>fetch_players_by_goals\<close>: the loop from page 1, then \<^verbatim>\<open>goal_list[:20]\<close>. The players
  endpoint answers a team, a season and a page number.
\<close>

definition fetch_players_by_goals ::
  "(int \<Rightarrow> string \<Rightarrow> nat \<Rightarrow> player http_response) \<Rightarrow> int \<Rightarrow> string \<Rightarrow>
     (py_error + entry list) option"
where
  "fetch_players_by_goals endpoint team_id season_year =
     (case fetch_loop (endpoint team_id season_year) 1 [] of
        None \<Rightarrow> None
      | Some (Inl e) \<Rightarrow> Some (Inl e)
      | Some (Inr goal_list) \<Rightarrow> Some (Inr (take 20 goal_list)))"

section \<open>Controller\<close>

text \<open>
  The events \<^verbatim>\<open>pygame.event.get()\<close> delivers, as far as the loop tells them apart.
\<close>

datatype key = K_r | K_SPACE | K_a | K_d | K_i | K_b | K_other

datatype event = QUIT | KEYDOWN key | OTHER

text \<open>The two values \<^verbatim>\<open>sorting_algorithm\<close> takes: the generator functions.\<close>

datatype algorithm = Bubble | Insertion

text \<open>
  A generator object, between two \<^verbatim>\<open>next\<close> calls, is represented by what it has
  yet to do to the list: the contents of the list at each of its remaining yields.
  The generator works on the list object that was \<^verbatim>\<open>draw_info.lst\<close> when it was
  created. Reloading replaces \<^verbatim>\<open>draw_info.lst\<close> by a new object and clears \<^verbatim>\<open>sorting\<close>,
  and \<^verbatim>\<open>sorting\<close> is set again only together with a new generator, so a generator
  is only ever advanced while its list is still \<^verbatim>\<open>draw_info.lst\<close>, and nothing else
  writes to that list meanwhile.
\<close>

type_synonym generator = "entry list list"

definition new_generator :: "algorithm \<Rightarrow> entry list \<Rightarrow> bool \<Rightarrow> generator" where
  "new_generator alg l asc =
     (case alg of Bubble \<Rightarrow> steps (bubble_sort l asc)
                | Insertion \<Rightarrow> steps (insertion_sort l asc))"

text \<open>The local variables of \<^verbatim>\<open>main\<close> that the loop reads or writes.\<close>

record controller =
  draw_info :: draw_information
  raw_data :: "entry list"
  run :: bool
  sorting :: bool
  ascending :: bool
  sorting_algorithm :: algorithm
  sorting_algo_name :: string
  sorting_algorithm_generator :: "generator option"

text \<open>
  The state \<^verbatim>\<open>main\<close> enters the loop with (lines 376-388); \<^verbatim>\<open>main\<close> returns before
  it when the data is empty.
\<close>

definition initial_controller :: "entry list \<Rightarrow> (py_error + controller) option" where
  "initial_controller data =
     (if data = [] then None
      else Some (case DrawInformation 1400 1000 data of
                   Inl e \<Rightarrow> Inl e
                 | Inr d \<Rightarrow> Inr \<lparr>draw_info = d, raw_data = data, run = True, sorting = False,
                                 ascending = True, sorting_algorithm = Bubble,
                                 sorting_algo_name = ''Bubble Sort'',
                                 sorting_algorithm_generator = None\<rparr>))"

text \<open>
  The body of \<^verbatim>\<open>for event in pygame.event.get()\<close> (lines 402-425). \<open>fresh\<close> is what
  \<^verbatim>\<open>fetch_players_by_goals(team_id, season_year)\<close> or \<^verbatim>\<open>load_offline_data(filename)\<close>
  returns when called at this event.
\<close>

definition handle_event :: "controller \<Rightarrow> event \<Rightarrow> entry list \<Rightarrow> py_error + controller" where
  "handle_event c ev fresh =
     (let c1 = (if ev = QUIT then c\<lparr>run := False\<rparr> else c)
      in case ev of
           KEYDOWN k \<Rightarrow>
             if k = K_r then
               (case set_list (draw_info c1) fresh of
                  Inl e \<Rightarrow> Inl e
                | Inr d \<Rightarrow> Inr (c1\<lparr>raw_data := fresh, draw_info := d, sorting := False\<rparr>))
             else if k = K_SPACE \<and> \<not> sorting c1 then
               Inr (c1\<lparr>sorting := True,
                       sorting_algorithm_generator :=
                         Some (new_generator (sorting_algorithm c1) (lst (draw_info c1))
                                 (ascending c1))\<rparr>)
             else if k = K_a \<and> \<not> sorting c1 then Inr (c1\<lparr>ascending := True\<rparr>)
             else if k = K_d \<and> \<not> sorting c1 then Inr (c1\<lparr>ascending := False\<rparr>)
             else if k = K_i \<and> \<not> sorting c1 then
               Inr (c1\<lparr>sorting_algorithm := Insertion, sorting_algo_name := ''Insertion Sort''\<rparr>)
             else if k = K_b \<and> \<not> sorting c1 then
               Inr (c1\<lparr>sorting_algorithm := Bubble, sorting_algo_name := ''Bubble Sort''\<rparr>)
             else Inr c1
         | _ \<Rightarrow> Inr c1)"

text \<open>
  The first half of the loop body (lines 393-399): \<^verbatim>\<open>next\<close> on the generator while
  sorting, \<^verbatim>\<open>StopIteration\<close> clearing \<^verbatim>\<open>sorting\<close>; drawing does not change the state.
  \<^verbatim>\<open>next(None)\<close> would raise \<^verbatim>\<open>TypeError\<close>. \<^verbatim>\<open>set_list\<close> stores the reference it is
  given, so \<^verbatim>\<open>raw_data\<close> and \<^verbatim>\<open>draw_info.lst\<close> are one list object: what the generator
  writes to the list shows in both.
\<close>

definition advance :: "controller \<Rightarrow> py_error + controller" where
  "advance c =
     (if sorting c then
        (case sorting_algorithm_generator c of
           None \<Rightarrow> Inl TypeError
         | Some [] \<Rightarrow> Inr (c\<lparr>sorting := False\<rparr>)
         | Some (l # rest) \<Rightarrow>
             Inr (c\<lparr>draw_info := (draw_info c)\<lparr>lst := l\<rparr>, raw_data := l,
                     sorting_algorithm_generator := Some rest\<rparr>))
      else Inr c)"

text \<open>The events of one iteration, each with the data a reload would get.\<close>

fun handle_events :: "controller \<Rightarrow> (event \<times> entry list) list \<Rightarrow> py_error + controller" where
  "handle_events c [] = Inr c"
| "handle_events c ((ev, fresh) # evs) =
     (case handle_event c ev fresh of Inl e \<Rightarrow> Inl e | Inr c' \<Rightarrow> handle_events c' evs)"

text \<open>One iteration of \<^verbatim>\<open>while run\<close> (lines 392-425).\<close>

definition tick :: "controller \<Rightarrow> (event \<times> entry list) list \<Rightarrow> py_error + controller" where
  "tick c evs = (case advance c of Inl e \<Rightarrow> Inl e | Inr c' \<Rightarrow> handle_events c' evs)"


section \<open>Vocabulary of the properties\<close>

text \<open>
  Two entries are in order, for a direction, when the sorts' test does not ask to
  exchange them: ascending, the left goal count is at most the right one; descending,
  at least.
\<close>

definition in_order :: "bool \<Rightarrow> entry \<Rightarrow> entry \<Rightarrow> bool" where
  "in_order asc x y \<longleftrightarrow> \<not> out_of_order asc (snd x) (snd y)"

text \<open>
  \<open>ys\<close> is a stable rearrangement of \<open>xs\<close>: the same entries with the same
  multiplicities, and for every goal count the entries with this count in the same
  order.
\<close>

definition stable_perm :: "entry list \<Rightarrow> entry list \<Rightarrow> bool" where
  "stable_perm xs ys \<longleftrightarrow>
     mset ys = mset xs \<and> (\<forall>k. filter (\<lambda>e. snd e = k) ys = filter (\<lambda>e. snd e = k) xs)"

text \<open>
  Invariant of the inner loop of \<^verbatim>\<open>bubble_sort\<close> before iteration \<open>j\<close>, on a pass that
  started from the list \<open>xs\<close>: the list beyond index \<open>j\<close> is as it was, the entries up to
  \<open>j\<close> are those of \<open>xs\<close>, and the entry at \<open>j\<close> is in order after all those before it.
\<close>

definition pass_inv :: "bool \<Rightarrow> entry list \<Rightarrow> nat \<Rightarrow> sort_run \<Rightarrow> bool" where
  "pass_inv asc xs j s \<longleftrightarrow>
     length (cur s) = length xs \<and>
     drop (Suc j) (cur s) = drop (Suc j) xs \<and>
     mset (take (Suc j) (cur s)) = mset (take (Suc j) xs) \<and>
     (\<forall>a\<in>set (take j (cur s)). in_order asc a (cur s ! j))"

text \<open>
  Invariant of the outer loop of \<^verbatim>\<open>bubble_sort\<close> before pass \<open>i\<close> on a list of length
  \<open>n\<close>: the last \<open>i\<close> entries are sorted and in order after all the others.
\<close>

definition tail_sorted :: "bool \<Rightarrow> nat \<Rightarrow> nat \<Rightarrow> sort_run \<Rightarrow> bool" where
  "tail_sorted asc n i s \<longleftrightarrow>
     length (cur s) = n \<and>
     sorted_wrt (in_order asc) (drop (n - i) (cur s)) \<and>
     (\<forall>x\<in>set (take (n - i) (cur s)). \<forall>y\<in>set (drop (n - i) (cur s)). in_order asc x y)"

text \<open>A run that has left the list \<open>xs\<close> as it was and has not yielded.\<close>

definition untouched :: "entry list \<Rightarrow> sort_run \<Rightarrow> bool" where
  "untouched xs s \<longleftrightarrow> cur s = xs \<and> steps s = [] \<and> moves s = 0"

text \<open>
  The value \<^verbatim>\<open>round(a / b)\<close> takes for \<open>b > 0\<close>, and the divisor of the bar height scale
  for a list \<open>l\<close>.
\<close>

definition nearest :: "int \<Rightarrow> int \<Rightarrow> int" where
  "nearest a b =
     (if 2 * (a mod b) < b then a div b
      else if 2 * (a mod b) > b then a div b + 1
      else if even (a div b) then a div b else a div b + 1)"

definition divisor :: "entry list \<Rightarrow> int" where
  "divisor l =
     max 1 (if Max (set (map snd l)) - Min (set (map snd l)) = 0 then 1
            else Max (set (map snd l)) - Min (set (map snd l)))"

text \<open>
  The players a response carries (none when the body is not JSON), the responses on
  which the loop of \<^verbatim>\<open>fetch_players_by_goals\<close> goes on to the next page, and those on
  which it stops.
\<close>

definition page_players :: "player http_response \<Rightarrow> player list" where
  "page_players resp = (case body resp of None \<Rightarrow> [] | Some data \<Rightarrow> get_response data)"

definition goes_on :: "player http_response \<Rightarrow> bool" where
  "goes_on resp \<longleftrightarrow> status_code resp = 200 \<and> body resp \<noteq> None \<and> page_players resp \<noteq> []"

definition ends :: "player http_response \<Rightarrow> bool" where
  "ends resp \<longleftrightarrow> status_code resp \<noteq> 200 \<or> (body resp \<noteq> None \<and> page_players resp = [])"

text \<open>
  The claim's words, independent of the functions of the source: the entries a page
  contributes are its players whose goals and whose appearances, each summed over all
  statistics entries with a missing value counting 0, are both positive, in page
  order, each with the summed goals.
\<close>

definition scorers :: "player list \<Rightarrow> entry list" where
  "scorers players =
     map (\<lambda>p. (player_name p, \<Sum>s\<leftarrow>statistics p. case goals_total s of None \<Rightarrow> 0 | Some n \<Rightarrow> n))
       (filter (\<lambda>p. 0 < (\<Sum>s\<leftarrow>statistics p. case goals_total s of None \<Rightarrow> 0 | Some n \<Rightarrow> n) \<and>
                    0 < (\<Sum>s\<leftarrow>statistics p. case games_appearences s of None \<Rightarrow> 0 | Some n \<Rightarrow> n))
          players)"

text \<open>
  A sample server. Page 1 holds a player with 5 goals in no appearance, a player with
  35 appearances and no goal, a player with 7 goals and 2 appearances, each spread over
  two competitions with missing values, and twenty players with \<open>1 + 2\<close> goals in
  \<open>3 + 4\<close> appearances over three competitions. Page 2 holds a player with \<open>4 + 5\<close>
  goals. Page 3 and all later ones are empty.
\<close>

definition competition :: "int option \<Rightarrow> int option \<Rightarrow> stats" where
  "competition g a = \<lparr>goals_total = g, games_appearences = a\<rparr>"

definition sample_page_1 :: "player list" where
  "sample_page_1 =
     [\<lparr>player_name = ''Bench'',
       statistics = [competition (Some 4) (Some 0), competition (Some 1) None]\<rparr>,
      \<lparr>player_name = ''Keeper'',
       statistics = [competition (Some 0) (Some 30), competition None (Some 5)]\<rparr>,
      \<lparr>player_name = ''Ace'',
       statistics = [competition (Some 7) None, competition None (Some 2)]\<rparr>]
     @ replicate 20
        \<lparr>player_name = ''Early'',
         statistics = [competition (Some 1) (Some 3), competition (Some 2) None,
                       competition None (Some 4)]\<rparr>"

definition late_scorer :: "nat \<Rightarrow> player http_response" where
  "late_scorer page =
     (if page = 1 then \<lparr>status_code = 200, body = Some \<lparr>response = Some sample_page_1\<rparr>\<rparr>
      else if page = 2 then
        \<lparr>status_code = 200,
         body = Some \<lparr>response = Some
           [\<lparr>player_name = ''Late'',
             statistics = [competition (Some 4) (Some 2), competition (Some 5) (Some 1)]\<rparr>]\<rparr>\<rparr>
      else \<lparr>status_code = 200, body = Some \<lparr>response = Some []\<rparr>\<rparr>)"

text \<open>\<open>n\<close> iterations of the loop of \<^verbatim>\<open>main\<close> in which no event arrives.\<close>

fun advances :: "nat \<Rightarrow> controller \<Rightarrow> py_error + controller" where
  "advances 0 c = Inr c"
| "advances (Suc n) c = (case advance c of Inl e \<Rightarrow> Inl e | Inr c' \<Rightarrow> advances n c')"

section \<open>Loops and orders\<close>

lemma in_order_trans: "in_order asc x y \<Longrightarrow> in_order asc y z \<Longrightarrow> in_order asc x z"
  by (auto simp: in_order_def out_of_order_def)

lemma out_of_order_flip: "out_of_order asc a b \<Longrightarrow> \<not> out_of_order asc b a"
  by (auto simp: out_of_order_def)

lemma out_of_order_neq: "out_of_order asc a b \<Longrightarrow> a \<noteq> b"
  by (auto simp: out_of_order_def)

lemma fold_upt_invariant:
  assumes "P a s" and "a \<le> b"
    and "\<And>i s. a \<le> i \<Longrightarrow> i < b \<Longrightarrow> P i s \<Longrightarrow> P (Suc i) (f i s)"
  shows "P b (fold f [a..<b] s)"
  using assms(2,3)
proof (induction b)
  case 0
  with assms(1) show ?case by simp
next
  case (Suc b)
  show ?case
  proof (cases "a = Suc b")
    case True
    with assms(1) show ?thesis by simp
  next
    case False
    with Suc.prems have le: "a \<le> b" by simp
    have "P b (fold f [a..<b] s)"
      by (rule Suc.IH [OF le]) (simp add: Suc.prems)
    then have "P (Suc b) (f b (fold f [a..<b] s))"
      using Suc.prems(2) [of b] le by simp
    with le show ?thesis by simp
  qed
qed

subsection \<open>Bubble sort sorts\<close>

lemma adjacent_split:
  assumes "Suc j < length xs"
  obtains A x y B where "xs = A @ x # y # B" and "j = length A"
proof -
  have "xs = take j xs @ xs ! j # xs ! Suc j # drop (Suc (Suc j)) xs"
    using assms by (simp add: Cons_nth_drop_Suc Suc_lessD)
  moreover have "j = length (take j xs)" using assms by simp
  ultimately show thesis using that by blast
qed

lemma cur_bubble_inner_split:
  "cur st = A @ x # y # B \<Longrightarrow>
   cur (bubble_inner asc (length A) st) =
     (if out_of_order asc (snd x) (snd y) then A @ y # x # B else A @ x # y # B)"
  by (simp add: bubble_inner_def Let_def nth_append list_update_append)

lemma steps_bubble_inner_split:
  "cur st = A @ x # y # B \<Longrightarrow>
   steps (bubble_inner asc (length A) st) =
     (if out_of_order asc (snd x) (snd y) then steps st @ [A @ y # x # B] else steps st)"
  by (simp add: bubble_inner_def Let_def nth_append list_update_append)

lemma moves_bubble_inner_split:
  "cur st = A @ x # y # B \<Longrightarrow>
   moves (bubble_inner asc (length A) st) =
     (if out_of_order asc (snd x) (snd y) then moves st + 1 else moves st)"
  by (simp add: bubble_inner_def Let_def nth_append list_update_append)

lemma comparisons_bubble_inner:
  "comparisons (bubble_inner asc j st) = comparisons st + 1"
  by (simp add: bubble_inner_def Let_def)

lemma length_cur_bubble_inner:
  "length (cur (bubble_inner asc j st)) = length (cur st)"
  by (simp add: bubble_inner_def Let_def)

lemma pass_inv_step:
  assumes inv: "pass_inv asc xs j s" and j: "Suc j < length xs"
  shows "pass_inv asc xs (Suc j) (bubble_inner asc j s)"
proof -
  from inv have len: "length (cur s) = length xs"
    and dr: "drop (Suc j) (cur s) = drop (Suc j) xs"
    and ms: "mset (take (Suc j) (cur s)) = mset (take (Suc j) xs)"
    and dom: "\<forall>a\<in>set (take j (cur s)). in_order asc a (cur s ! j)"
    by (simp_all add: pass_inv_def)
  from j len obtain A x y B where sp: "cur s = A @ x # y # B" and lA: "j = length A"
    by (metis adjacent_split)
  let ?s' = "bubble_inner asc j s"
  have cur': "cur ?s' = (if out_of_order asc (snd x) (snd y) then A @ y # x # B else A @ x # y # B)"
    using cur_bubble_inner_split [OF sp, of asc] lA by simp
  have domA: "\<forall>a\<in>set A. in_order asc a x"
    using dom sp lA by simp
  have dxs: "drop (Suc j) xs = y # B"
    using dr sp lA by simp
  have xsj: "xs ! Suc j = y" and dxs2: "drop (Suc (Suc j)) xs = B"
  proof -
    have "drop (Suc j) xs = xs ! Suc j # drop (Suc (Suc j)) xs"
      using j by (simp add: Cons_nth_drop_Suc)
    with dxs show "xs ! Suc j = y" and "drop (Suc (Suc j)) xs = B" by simp_all
  qed
  have txs: "take (Suc (Suc j)) xs = take (Suc j) xs @ [y]"
    using j xsj by (simp add: take_Suc_conv_app_nth)
  have msA: "mset (take (Suc j) xs) = mset A + {#x#}"
    using ms sp lA by simp
  have 1: "length (cur ?s') = length xs"
    using len by (simp add: length_cur_bubble_inner)
  have 2: "drop (Suc (Suc j)) (cur ?s') = drop (Suc (Suc j)) xs"
    using cur' lA dxs2 by auto
  have 3: "mset (take (Suc (Suc j)) (cur ?s')) = mset (take (Suc (Suc j)) xs)"
    using cur' lA txs msA by auto
  have 4: "\<forall>a\<in>set (take (Suc j) (cur ?s')). in_order asc a (cur ?s' ! Suc j)"
  proof (cases "out_of_order asc (snd x) (snd y)")
    case True
    then have "in_order asc y x"
      by (simp add: in_order_def out_of_order_flip)
    with True cur' lA domA show ?thesis by (auto simp: nth_append)
  next
    case False
    then have xy: "in_order asc x y" by (simp add: in_order_def)
    with domA have "\<forall>a\<in>set A. in_order asc a y"
      by (blast intro: in_order_trans)
    with False xy cur' lA show ?thesis by (auto simp: nth_append)
  qed
  from 1 2 3 4 show ?thesis by (simp add: pass_inv_def)
qed

lemma pass_inv_fold:
  assumes "m < length xs" and "cur st = xs"
  shows "pass_inv asc xs m (fold (bubble_inner asc) [0..<m] st)"
proof (rule fold_upt_invariant)
  show "pass_inv asc xs 0 st"
    using assms by (simp add: pass_inv_def)
next
  show "0 \<le> m" by simp
next
  fix i s
  assume "i < m" and "pass_inv asc xs i s"
  with assms(1) show "pass_inv asc xs (Suc i) (bubble_inner asc i s)"
    by (intro pass_inv_step) simp_all
qed

lemma bubble_pass_inv:
  assumes "Suc i < length (cur st)"
  shows "pass_inv asc (cur st) (length (cur st) - 1 - i) (bubble_pass asc i st)"
  unfolding bubble_pass_def using assms by (intro pass_inv_fold) simp_all

lemma tail_sorted_step:
  assumes inv: "tail_sorted asc n i s" and i: "Suc i < n"
  shows "tail_sorted asc n (Suc i) (bubble_pass asc i s)"
proof -
  let ?xs = "cur s" and ?ys = "cur (bubble_pass asc i s)"
  define m where "m = n - 1 - i"
  from inv have len: "length ?xs = n"
    and srt: "sorted_wrt (in_order asc) (drop (n - i) ?xs)"
    and dom: "\<forall>x\<in>set (take (n - i) ?xs). \<forall>y\<in>set (drop (n - i) ?xs). in_order asc x y"
    by (simp_all add: tail_sorted_def)
  from i have m1: "Suc m = n - i" and m2: "m = n - Suc i" and mn: "m < n"
    by (simp_all add: m_def)
  have "pass_inv asc ?xs m (bubble_pass asc i s)"
    using bubble_pass_inv [of i s asc] i len by (simp add: m_def)
  then have len': "length ?ys = n"
    and dr: "drop (Suc m) ?ys = drop (Suc m) ?xs"
    and ms: "mset (take (Suc m) ?ys) = mset (take (Suc m) ?xs)"
    and top: "\<forall>a\<in>set (take m ?ys). in_order asc a (?ys ! m)"
    using len by (simp_all add: pass_inv_def)
  from ms have st: "set (take (Suc m) ?ys) = set (take (Suc m) ?xs)"
    by (rule mset_eq_setD)
  have dm: "drop m ?ys = ?ys ! m # drop (Suc m) ?xs"
    using mn len' dr by (simp add: Cons_nth_drop_Suc [symmetric])
  have tk: "take (Suc m) ?ys = take m ?ys @ [?ys ! m]"
    using mn len' by (simp add: take_Suc_conv_app_nth)
  have low: "\<forall>x\<in>set (take (Suc m) ?ys). \<forall>y\<in>set (drop (Suc m) ?xs). in_order asc x y"
    using dom st by (simp add: m1)
  have "sorted_wrt (in_order asc) (drop m ?ys)"
    using srt low dm tk by (simp add: m1)
  moreover have "\<forall>x\<in>set (take m ?ys). \<forall>y\<in>set (drop m ?ys). in_order asc x y"
    using top low dm tk by auto
  ultimately show ?thesis
    using len' by (simp add: tail_sorted_def m2)
qed

lemma sorted_wrt_bubble_sort:
  "sorted_wrt (in_order asc) (cur (bubble_sort xs asc))"
proof -
  let ?n = "length xs"
  have inv: "tail_sorted asc ?n (?n - 1) (bubble_sort xs asc)"
    unfolding bubble_sort_def
  proof (rule fold_upt_invariant)
    show "tail_sorted asc ?n 0 (start_run xs)"
      by (simp add: tail_sorted_def start_run_def)
  next
    show "0 \<le> ?n - 1" by simp
  next
    fix i s
    assume "i < ?n - 1" and "tail_sorted asc ?n i s"
    then show "tail_sorted asc ?n (Suc i) (bubble_pass asc i s)"
      by (intro tail_sorted_step) simp_all
  qed
  let ?ys = "cur (bubble_sort xs asc)"
  from inv have srt: "sorted_wrt (in_order asc) (drop (?n - (?n - 1)) ?ys)"
    and dom: "\<forall>x\<in>set (take (?n - (?n - 1)) ?ys). \<forall>y\<in>set (drop (?n - (?n - 1)) ?ys). in_order asc x y"
    by (simp_all add: tail_sorted_def)
  have "sorted_wrt (in_order asc) (take (?n - (?n - 1)) ?ys)"
    by (rule sorted_wrt01) simp
  with srt dom have "sorted_wrt (in_order asc) (take (?n - (?n - 1)) ?ys @ drop (?n - (?n - 1)) ?ys)"
    unfolding sorted_wrt_append by blast
  then show ?thesis by simp
qed

subsection \<open>Bubble sort rearranges stably\<close>

lemma stable_perm_refl: "stable_perm xs xs"
  by (simp add: stable_perm_def)

lemma stable_perm_trans: "stable_perm xs ys \<Longrightarrow> stable_perm ys zs \<Longrightarrow> stable_perm xs zs"
  by (simp add: stable_perm_def)

lemma stable_perm_length: "stable_perm xs ys \<Longrightarrow> length ys = length xs"
  by (auto simp: stable_perm_def dest: mset_eq_length)

lemma stable_perm_swap:
  "snd x \<noteq> snd y \<Longrightarrow> stable_perm (A @ x # y # B) (A @ y # x # B)"
  by (auto simp: stable_perm_def)

lemma stable_perm_bubble_inner:
  assumes "Suc j < length (cur s)"
  shows "stable_perm (cur s) (cur (bubble_inner asc j s))"
proof -
  from assms obtain A x y B where sp: "cur s = A @ x # y # B" and lA: "j = length A"
    by (metis adjacent_split)
  show ?thesis
    using cur_bubble_inner_split [OF sp, of asc] sp lA
    by (auto simp: stable_perm_refl intro: stable_perm_swap dest: out_of_order_neq)
qed

lemma kept_bubble_pass:
  assumes "stable_perm xs (cur st)"
  shows "stable_perm xs (cur (bubble_pass asc i st))"
proof -
  let ?m = "length (cur st) - 1 - i"
  have "stable_perm xs (cur (fold (bubble_inner asc) [0..<?m] st))
      \<and> length (cur (fold (bubble_inner asc) [0..<?m] st)) = length (cur st)"
  proof (rule fold_upt_invariant [where P = "\<lambda>j (s::sort_run). stable_perm xs (cur s) \<and> length (cur s) = length (cur st)"])
    show "stable_perm xs (cur st) \<and> length (cur st) = length (cur st)"
      using assms by simp
  next
    show "0 \<le> ?m" by simp
  next
    fix j and s :: sort_run
    assume j: "j < ?m" and inv: "stable_perm xs (cur s) \<and> length (cur s) = length (cur st)"
    then have "Suc j < length (cur s)" by simp
    then have "stable_perm (cur s) (cur (bubble_inner asc j s))"
      by (rule stable_perm_bubble_inner)
    with inv show "stable_perm xs (cur (bubble_inner asc j s))
        \<and> length (cur (bubble_inner asc j s)) = length (cur st)"
      by (auto intro: stable_perm_trans simp: length_cur_bubble_inner)
  qed
  then show ?thesis by (simp add: bubble_pass_def)
qed

lemma stable_perm_bubble_sort: "stable_perm xs (cur (bubble_sort xs asc))"
  unfolding bubble_sort_def
proof (rule fold_upt_invariant [where P = "\<lambda>i (s::sort_run). stable_perm xs (cur s)"])
  show "stable_perm xs (cur (start_run xs))"
    by (simp add: start_run_def stable_perm_refl)
qed (simp_all add: kept_bubble_pass)

subsection \<open>Counting the steps of bubble sort\<close>

lemma comparisons_fold_bubble_inner:
  "comparisons (fold (bubble_inner asc) [0..<m] st) = comparisons st + m
   \<and> length (cur (fold (bubble_inner asc) [0..<m] st)) = length (cur st)"
  by (induction m) (simp_all add: comparisons_bubble_inner length_cur_bubble_inner)

lemma comparisons_bubble_pass:
  "comparisons (bubble_pass asc i st) = comparisons st + (length (cur st) - 1 - i)"
  and length_cur_bubble_pass: "length (cur (bubble_pass asc i st)) = length (cur st)"
  by (simp_all add: bubble_pass_def comparisons_fold_bubble_inner)

lemma sum_descending: "2 * (\<Sum>k<m. m - k) = m * (m + 1)" for m :: nat
proof -
  have "(\<Sum>k<m. m - k) = (\<Sum>k<m. Suc (m - Suc k))"
    by (intro sum.cong) auto
  also have "\<dots> = (\<Sum>k<m. Suc k)"
    by (rule sum.nat_diff_reindex)
  finally have "(\<Sum>k<m. m - k) = (\<Sum>k<m. Suc k)" .
  moreover have "2 * (\<Sum>k<m. Suc k) = m * (m + 1)"
    by (induction m) simp_all
  ultimately show ?thesis by simp
qed

lemma comparisons_bubble_sort:
  "comparisons (bubble_sort xs asc) = (\<Sum>i<length xs - 1. length xs - 1 - i)"
proof -
  let ?n = "length xs"
  have "comparisons (bubble_sort xs asc) = (\<Sum>k<?n - 1. ?n - 1 - k)
      \<and> length (cur (bubble_sort xs asc)) = ?n"
    unfolding bubble_sort_def
  proof (rule fold_upt_invariant
      [where P = "\<lambda>i (s::sort_run). comparisons s = (\<Sum>k<i. ?n - 1 - k) \<and> length (cur s) = ?n"])
    show "comparisons (start_run xs) = (\<Sum>k<0. ?n - 1 - k) \<and> length (cur (start_run xs)) = ?n"
      by (simp add: start_run_def)
  qed (simp_all add: comparisons_bubble_pass length_cur_bubble_pass)
  then show ?thesis by simp
qed

lemma bubble_inner_in_order:
  assumes "\<not> out_of_order asc (snd (cur s ! j)) (snd (cur s ! Suc j))"
  shows "cur (bubble_inner asc j s) = cur s"
    and "steps (bubble_inner asc j s) = steps s"
    and "moves (bubble_inner asc j s) = moves s"
  using assms by (simp_all add: bubble_inner_def Let_def)

lemma sorted_wrt_adjacent:
  assumes "sorted_wrt (in_order asc) xs" and "Suc j < length xs"
  shows "\<not> out_of_order asc (snd (xs ! j)) (snd (xs ! Suc j))"
  using sorted_wrt_nth_less [OF assms(1), of j "Suc j"] assms(2)
  by (simp add: in_order_def)

lemma untouched_bubble_pass:
  assumes srt: "sorted_wrt (in_order asc) xs" and un: "untouched xs st"
  shows "untouched xs (bubble_pass asc i st)"
  unfolding bubble_pass_def
proof (rule fold_upt_invariant [where P = "\<lambda>j. untouched xs"])
  show "untouched xs st" by (rule un)
next
  show "0 \<le> length (cur st) - 1 - i" by simp
next
  fix j s
  assume "j < length (cur st) - 1 - i" and s: "untouched xs s"
  with un have "Suc j < length xs" by (simp add: untouched_def)
  with srt have "\<not> out_of_order asc (snd (xs ! j)) (snd (xs ! Suc j))"
    by (rule sorted_wrt_adjacent)
  with s show "untouched xs (bubble_inner asc j s)"
    by (simp add: untouched_def bubble_inner_in_order)
qed

lemma untouched_bubble_sort:
  assumes "sorted_wrt (in_order asc) xs"
  shows "untouched xs (bubble_sort xs asc)"
  unfolding bubble_sort_def
proof (rule fold_upt_invariant [where P = "\<lambda>j. untouched xs"])
  show "untouched xs (start_run xs)"
    by (simp add: untouched_def start_run_def)
qed (simp_all add: untouched_bubble_pass assms)

lemma steps_moves_bubble_inner:
  "length (steps (bubble_inner asc j s)) = moves (bubble_inner asc j s)
     \<longleftrightarrow> length (steps s) = moves s"
  by (simp add: bubble_inner_def Let_def)

lemma steps_moves_bubble_sort:
  "length (steps (bubble_sort xs asc)) = moves (bubble_sort xs asc)"
  unfolding bubble_sort_def
proof (rule fold_upt_invariant [where P = "\<lambda>i (s::sort_run). length (steps s) = moves s"])
  show "length (steps (start_run xs)) = moves (start_run xs)"
    by (simp add: start_run_def)
next
  fix i and s :: sort_run
  assume inv: "length (steps s) = moves s"
  show "length (steps (bubble_pass asc i s)) = moves (bubble_pass asc i s)"
    unfolding bubble_pass_def
    by (rule fold_upt_invariant [where P = "\<lambda>j (s::sort_run). length (steps s) = moves s"])
      (simp_all add: inv steps_moves_bubble_inner)
qed simp

subsection \<open>Insertion sort\<close>

text \<open>
  The shift loop started at index \<open>length A\<close> moves the entries of a suffix \<open>A2\<close> of \<open>A\<close> one
  place to the right, all of them out of order with \<open>current\<close>, and stops at the
  first entry that is not. The entry \<open>d\<close> left at the final index is overwritten
  by \<^verbatim>\<open>lst[j] = current\<close>.
\<close>

lemma shift_loop_split:
  assumes "cur st = A @ x # B"
  shows "\<exists>A1 A2 d st'.
     shift_loop asc c (length A) st = (length A1, st') \<and> A = A1 @ A2 \<and>
     cur st' = A1 @ d # A2 @ B \<and>
     (\<forall>a\<in>set A2. out_of_order asc (snd a) (snd c)) \<and>
     (A1 = [] \<or> \<not> out_of_order asc (snd (last A1)) (snd c)) \<and>
     moves st' = moves st + length A2 \<and> steps st' = steps st"
  using assms
proof (induction A arbitrary: x B st rule: rev_induct)
  case Nil
  then show ?case by simp
next
  case (snoc a A')
  let ?st1 = "st\<lparr>comparisons := comparisons st + 1\<rparr>"
  have nth: "cur st ! length A' = a"
    using snoc.prems by (simp add: nth_append)
  show ?case
  proof (cases "out_of_order asc (snd a) (snd c)")
    case True
    let ?st2 = "?st1\<lparr>cur := (cur st)[Suc (length A') := a], moves := moves ?st1 + 1\<rparr>"
    have upd: "cur ?st2 = A' @ a # (a # B)"
      using snoc.prems by (simp add: list_update_append)
    from snoc.IH [OF upd] obtain A1 A2 d st' where
      run: "shift_loop asc c (length A') ?st2 = (length A1, st')" and
      A': "A' = A1 @ A2" and
      cur': "cur st' = A1 @ d # A2 @ a # B" and
      big: "\<forall>a\<in>set A2. out_of_order asc (snd a) (snd c)" and
      stop: "A1 = [] \<or> \<not> out_of_order asc (snd (last A1)) (snd c)" and
      mv: "moves st' = moves ?st2 + length A2" and
      stp: "steps st' = steps ?st2"
      by blast
    have "shift_loop asc c (length (A' @ [a])) st = (length A1, st')"
      using True nth run by (simp add: Let_def)
    moreover have "A' @ [a] = A1 @ (A2 @ [a])" using A' by simp
    moreover have "cur st' = A1 @ d # (A2 @ [a]) @ B" using cur' by simp
    moreover have "\<forall>b\<in>set (A2 @ [a]). out_of_order asc (snd b) (snd c)"
      using big True by simp
    moreover have "moves st' = moves st + length (A2 @ [a])" using mv by simp
    moreover have "steps st' = steps st" using stp by simp
    ultimately show ?thesis using stop by blast
  next
    case False
    have "shift_loop asc c (length (A' @ [a])) st = (length (A' @ [a]), ?st1)"
      using False nth by (simp add: Let_def)
    moreover have "A' @ [a] = (A' @ [a]) @ []" by simp
    moreover have "cur ?st1 = (A' @ [a]) @ x # [] @ B" using snoc.prems by simp
    moreover have "\<not> out_of_order asc (snd (last (A' @ [a]))) (snd c)" using False by simp
    ultimately show ?thesis by fastforce
  qed
qed

lemma insertion_outer_split:
  assumes "i < length (cur st)"
  shows "\<exists>A1 A2 c B.
     cur st = A1 @ A2 @ c # B \<and> i = length (A1 @ A2) \<and>
     cur (insertion_outer asc i st) = A1 @ c # A2 @ B \<and>
     (\<forall>a\<in>set A2. out_of_order asc (snd a) (snd c)) \<and>
     (A1 = [] \<or> \<not> out_of_order asc (snd (last A1)) (snd c)) \<and>
     moves (insertion_outer asc i st) = moves st + length A2 \<and>
     steps (insertion_outer asc i st) = steps st @ [A1 @ c # A2 @ B]"
proof -
  let ?c = "cur st ! i"
  have sp: "cur st = take i (cur st) @ ?c # drop (Suc i) (cur st)"
    using assms by (simp add: id_take_nth_drop [symmetric])
  have li: "length (take i (cur st)) = i" using assms by simp
  from shift_loop_split [OF sp, of asc ?c] li obtain A1 A2 d st' where
    run: "shift_loop asc ?c i st = (length A1, st')" and
    A: "take i (cur st) = A1 @ A2" and
    cur': "cur st' = A1 @ d # A2 @ drop (Suc i) (cur st)" and
    big: "\<forall>a\<in>set A2. out_of_order asc (snd a) (snd ?c)" and
    stop: "A1 = [] \<or> \<not> out_of_order asc (snd (last A1)) (snd ?c)" and
    mv: "moves st' = moves st + length A2" and
    stp: "steps st' = steps st"
    by auto
  have "cur st = A1 @ A2 @ ?c # drop (Suc i) (cur st)"
    using sp A by (metis append.assoc)
  moreover have "i = length (A1 @ A2)" using li A by simp
  moreover have "cur (insertion_outer asc i st) = A1 @ ?c # A2 @ drop (Suc i) (cur st)"
    using run cur' by (simp add: insertion_outer_def Let_def)
  moreover have "moves (insertion_outer asc i st) = moves st + length A2"
    using run mv by (simp add: insertion_outer_def Let_def)
  moreover have "steps (insertion_outer asc i st) = steps st @ [A1 @ ?c # A2 @ drop (Suc i) (cur st)]"
    using run cur' stp by (simp add: insertion_outer_def Let_def)
  ultimately show ?thesis using big stop by blast
qed

lemma stable_perm_move:
  assumes "\<forall>a\<in>set A2. snd a \<noteq> snd c"
  shows "stable_perm (A1 @ A2 @ c # B) (A1 @ c # A2 @ B)"
proof -
  have "filter (\<lambda>e. snd e = k) A2 = []" if "snd c = k" for k
    using assms that by (auto simp: filter_empty_conv)
  then show ?thesis by (simp add: stable_perm_def)
qed

lemma stable_perm_insertion_outer:
  assumes "i < length (cur st)"
  shows "stable_perm (cur st) (cur (insertion_outer asc i st))"
proof -
  from insertion_outer_split [OF assms, of asc] obtain A1 A2 c B where
    "cur st = A1 @ A2 @ c # B" and
    "cur (insertion_outer asc i st) = A1 @ c # A2 @ B" and
    "\<forall>a\<in>set A2. out_of_order asc (snd a) (snd c)"
    by blast
  then show ?thesis
    by (auto intro!: stable_perm_move dest: out_of_order_neq)
qed

lemma sorted_wrt_insert:
  assumes srt: "sorted_wrt (in_order asc) (A1 @ A2)"
    and big: "\<forall>a\<in>set A2. out_of_order asc (snd a) (snd c)"
    and stop: "A1 = [] \<or> \<not> out_of_order asc (snd (last A1)) (snd c)"
  shows "sorted_wrt (in_order asc) (A1 @ c # A2)"
proof -
  have low: "in_order asc a c" if "a \<in> set A1" for a
  proof -
    from that have ne: "A1 \<noteq> []" by auto
    with stop have l: "in_order asc (last A1) c" by (simp add: in_order_def)
    have "A1 = butlast A1 @ [last A1]" using ne by simp
    then have "sorted_wrt (in_order asc) (butlast A1 @ [last A1])" and
      "a \<in> set (butlast A1 @ [last A1])"
      using srt that by (simp_all add: sorted_wrt_append)
    then have "a = last A1 \<or> in_order asc a (last A1)"
      by (auto simp: sorted_wrt_append)
    with l show ?thesis by (auto intro: in_order_trans)
  qed
  have high: "in_order asc c a" if "a \<in> set A2" for a
    using big that by (simp add: in_order_def out_of_order_flip)
  from srt low high show ?thesis
    by (auto simp: sorted_wrt_append)
qed

lemma length_cur_insertion_outer:
  assumes "i < length (cur st)"
  shows "length (cur (insertion_outer asc i st)) = length (cur st)"
  using stable_perm_insertion_outer [OF assms] by (rule stable_perm_length)

lemma sorted_prefix_insertion_outer:
  assumes i: "i < length (cur st)" and srt: "sorted_wrt (in_order asc) (take i (cur st))"
  shows "sorted_wrt (in_order asc) (take (Suc i) (cur (insertion_outer asc i st)))"
proof -
  from insertion_outer_split [OF i, of asc] obtain A1 A2 c B where
    sp: "cur st = A1 @ A2 @ c # B" and li: "i = length (A1 @ A2)" and
    cur': "cur (insertion_outer asc i st) = A1 @ c # A2 @ B" and
    big: "\<forall>a\<in>set A2. out_of_order asc (snd a) (snd c)" and
    stop: "A1 = [] \<or> \<not> out_of_order asc (snd (last A1)) (snd c)"
    by blast
  from srt sp li have "sorted_wrt (in_order asc) (A1 @ A2)" by simp
  then have "sorted_wrt (in_order asc) (A1 @ c # A2)"
    using big stop by (rule sorted_wrt_insert)
  moreover have "take (Suc i) (A1 @ c # A2 @ B) = A1 @ c # A2"
    using li by simp
  ultimately show ?thesis using cur' by simp
qed

lemma sorted_wrt_insertion_sort:
  "sorted_wrt (in_order asc) (cur (insertion_sort xs asc))"
proof (cases "xs = []")
  case True
  then show ?thesis by (simp add: insertion_sort_def start_run_def)
next
  case False
  let ?n = "length xs"
  have "length (cur (insertion_sort xs asc)) = ?n
      \<and> sorted_wrt (in_order asc) (take ?n (cur (insertion_sort xs asc)))"
    unfolding insertion_sort_def
  proof (rule fold_upt_invariant
      [where P = "\<lambda>i (s::sort_run). length (cur s) = ?n \<and> sorted_wrt (in_order asc) (take i (cur s))"])
    show "length (cur (start_run xs)) = ?n
        \<and> sorted_wrt (in_order asc) (take 1 (cur (start_run xs)))"
      by (simp add: start_run_def sorted_wrt01)
  next
    show "1 \<le> ?n" using False by (simp add: Suc_le_eq)
  next
    fix i and s :: sort_run
    assume "i < ?n" and "length (cur s) = ?n \<and> sorted_wrt (in_order asc) (take i (cur s))"
    then show "length (cur (insertion_outer asc i s)) = ?n
        \<and> sorted_wrt (in_order asc) (take (Suc i) (cur (insertion_outer asc i s)))"
      by (simp add: length_cur_insertion_outer sorted_prefix_insertion_outer)
  qed
  then show ?thesis by (metis order_refl take_all)
qed

lemma stable_perm_insertion_sort: "stable_perm xs (cur (insertion_sort xs asc))"
proof (cases "xs = []")
  case True
  then show ?thesis by (simp add: insertion_sort_def start_run_def stable_perm_refl)
next
  case False
  show ?thesis
    unfolding insertion_sort_def
  proof (rule fold_upt_invariant [where P = "\<lambda>i (s::sort_run). stable_perm xs (cur s)"])
    show "stable_perm xs (cur (start_run xs))"
      by (simp add: start_run_def stable_perm_refl)
  next
    show "1 \<le> length xs" using False by (simp add: Suc_le_eq)
  next
    fix i and s :: sort_run
    assume i: "i < length xs" and inv: "stable_perm xs (cur s)"
    then have "i < length (cur s)" by (simp add: stable_perm_length)
    then have "stable_perm (cur s) (cur (insertion_outer asc i s))"
      by (rule stable_perm_insertion_outer)
    with inv show "stable_perm xs (cur (insertion_outer asc i s))"
      by (rule stable_perm_trans)
  qed
qed

lemma steps_shift_loop: "steps (snd (shift_loop asc c j s)) = steps s"
  by (induction j arbitrary: s) (simp_all add: Let_def)

lemma steps_insertion_outer:
  "length (steps (insertion_outer asc i st)) = Suc (length (steps st))"
  using steps_shift_loop [of asc "cur st ! i" i st]
  by (auto simp: insertion_outer_def Let_def split: prod.split)

lemma length_steps_insertion_sort:
  "length (steps (insertion_sort xs asc)) = length xs - 1"
proof (cases "xs = []")
  case True
  then show ?thesis by (simp add: insertion_sort_def start_run_def)
next
  case False
  show ?thesis
    unfolding insertion_sort_def
  proof (rule fold_upt_invariant [where P = "\<lambda>i (s::sort_run). length (steps s) = i - 1"])
    show "length (steps (start_run xs)) = 1 - 1"
      by (simp add: start_run_def)
  next
    show "1 \<le> length xs" using False by (simp add: Suc_le_eq)
  next
    fix i and s :: sort_run
    assume "1 \<le> i" and "length (steps s) = i - 1"
    then show "length (steps (insertion_outer asc i s)) = Suc i - 1"
      by (simp add: steps_insertion_outer)
  qed
qed

lemma insertion_outer_in_order:
  assumes i: "i < length (cur st)"
    and srt: "sorted_wrt (in_order asc) (cur st)"
  shows "cur (insertion_outer asc i st) = cur st"
    and "moves (insertion_outer asc i st) = moves st"
proof -
  from insertion_outer_split [OF i, of asc] obtain A1 A2 c B where
    sp: "cur st = A1 @ A2 @ c # B" and
    cur': "cur (insertion_outer asc i st) = A1 @ c # A2 @ B" and
    big: "\<forall>a\<in>set A2. out_of_order asc (snd a) (snd c)" and
    mv: "moves (insertion_outer asc i st) = moves st + length A2"
    by blast
  from srt sp have "\<forall>a\<in>set A2. in_order asc a c"
    by (auto simp: sorted_wrt_append)
  with big have "A2 = []"
    by (cases A2) (auto simp: in_order_def)
  with sp cur' mv show "cur (insertion_outer asc i st) = cur st"
    and "moves (insertion_outer asc i st) = moves st"
    by simp_all
qed

lemma insertion_sort_in_order:
  assumes "sorted_wrt (in_order asc) xs"
  shows "cur (insertion_sort xs asc) = xs \<and> moves (insertion_sort xs asc) = 0"
proof (cases "xs = []")
  case True
  then show ?thesis by (simp add: insertion_sort_def start_run_def)
next
  case False
  show ?thesis
    unfolding insertion_sort_def
  proof (rule fold_upt_invariant [where P = "\<lambda>i (s::sort_run). cur s = xs \<and> moves s = 0"])
    show "cur (start_run xs) = xs \<and> moves (start_run xs) = 0"
      by (simp add: start_run_def)
  next
    show "1 \<le> length xs" using False by (simp add: Suc_le_eq)
  next
    fix i and s :: sort_run
    assume "i < length xs" and "cur s = xs \<and> moves s = 0"
    then show "cur (insertion_outer asc i s) = xs \<and> moves (insertion_outer asc i s) = 0"
      using assms by (simp add: insertion_outer_in_order)
  qed
qed


subsection \<open>The list at exhaustion is the list at the last yield\<close>

text \<open>
  Neither generator writes to the list after its last \<^verbatim>\<open>yield\<close>: the content at
  \<^verbatim>\<open>StopIteration\<close> is the content at the last yield, or the initial one when nothing
  was yielded.
\<close>

lemma last_yield_bubble_sort: "cur (bubble_sort xs asc) = last (xs # steps (bubble_sort xs asc))"
  unfolding bubble_sort_def
proof (rule fold_upt_invariant [where P = "\<lambda>i (s::sort_run). cur s = last (xs # steps s)"])
  show "cur (start_run xs) = last (xs # steps (start_run xs))"
    by (simp add: start_run_def)
next
  fix i and s :: sort_run
  assume inv: "cur s = last (xs # steps s)"
  show "cur (bubble_pass asc i s) = last (xs # steps (bubble_pass asc i s))"
    unfolding bubble_pass_def
    by (rule fold_upt_invariant [where P = "\<lambda>j (s::sort_run). cur s = last (xs # steps s)"])
      (simp_all add: inv bubble_inner_def Let_def)
qed simp

lemma last_yield_insertion_sort:
  "cur (insertion_sort xs asc) = last (xs # steps (insertion_sort xs asc))"
proof (cases "xs = []")
  case True
  then show ?thesis by (simp add: insertion_sort_def start_run_def)
next
  case False
  show ?thesis
    unfolding insertion_sort_def
  proof (rule fold_upt_invariant [where P = "\<lambda>i (s::sort_run). cur s = last (xs # steps s)"])
    show "cur (start_run xs) = last (xs # steps (start_run xs))"
      by (simp add: start_run_def)
  next
    show "1 \<le> length xs" using False by (simp add: Suc_le_eq)
  next
    fix i and s :: sort_run
    show "cur (insertion_outer asc i s) = last (xs # steps (insertion_outer asc i s))"
      by (simp add: insertion_outer_def Let_def split: prod.split)
  qed
qed

section \<open>The sorts: order, step counts, permutation, idempotence, stability\<close>

lemma in_order_True: "in_order True = (\<lambda>x y. snd x \<le> snd y)"
  and in_order_False: "in_order False = (\<lambda>x y. snd x \<ge> snd y)"
  by (auto simp: fun_eq_iff in_order_def out_of_order_def)

lemma sorted_goals:
  assumes "sorted_wrt (in_order asc) ys"
  shows "if asc then sorted_wrt (\<le>) (map snd ys) else sorted_wrt (\<ge>) (map snd ys)"
  using assms by (cases asc) (simp_all add: sorted_wrt_map in_order_True in_order_False)

text \<open>
  Claim C1. After \<^verbatim>\<open>bubble_sort\<close> or \<^verbatim>\<open>insertion_sort\<close> has run to exhaustion with
  \<^verbatim>\<open>ascending=True\<close>, the goal counts of the list are non-decreasing from left to
  right; with \<^verbatim>\<open>ascending=False\<close> they are non-increasing. This holds for every list,
  in particular for those of length at least 2.
\<close>

theorem sorts_order_goals:
  "sorted_wrt (\<le>) (map snd (cur (bubble_sort xs True))) \<and>
   sorted_wrt (\<ge>) (map snd (cur (bubble_sort xs False))) \<and>
   sorted_wrt (\<le>) (map snd (cur (insertion_sort xs True))) \<and>
   sorted_wrt (\<ge>) (map snd (cur (insertion_sort xs False)))"
  using sorted_goals [OF sorted_wrt_bubble_sort, of True xs]
    sorted_goals [OF sorted_wrt_bubble_sort, of False xs]
    sorted_goals [OF sorted_wrt_insertion_sort, of True xs]
    sorted_goals [OF sorted_wrt_insertion_sort, of False xs]
  by simp

theorem sorts_order_goals_witness:
  "map snd (cur (bubble_sort [(''Smith'', 3), (''Jones'', 10), (''Lee'', 1)] True)) = [1, 3, 10] \<and>
   sorted_wrt (\<le>) (map snd (cur (bubble_sort [(''Smith'', 3), (''Jones'', 10), (''Lee'', 1)] True))) \<and>
   map snd (cur (insertion_sort [(''Smith'', 3), (''Jones'', 10), (''Lee'', 1)] False)) = [10, 3, 1] \<and>
   sorted_wrt (\<ge>) (map snd (cur (insertion_sort [(''Smith'', 3), (''Jones'', 10), (''Lee'', 1)] False)))"
proof -
  have "map snd (cur (bubble_sort [(''Smith'', 3), (''Jones'', 10), (''Lee'', 1)] True)) = [1, 3, 10]"
    by code_simp
  moreover have "map snd (cur (insertion_sort [(''Smith'', 3), (''Jones'', 10), (''Lee'', 1)] False)) = [10, 3, 1]"
    by code_simp
  ultimately show ?thesis
    using sorts_order_goals [of "[(''Smith'', 3), (''Jones'', 10), (''Lee'', 1)]"] by blast
qed

text \<open>
  Claim C2. A full run of \<^verbatim>\<open>bubble_sort\<close> on a list of length \<open>n\<close> evaluates the
  comparison of line 271 exactly \<open>n (n - 1) / 2\<close> times, whatever the data and the
  direction: no pass is skipped. Every outer iteration of \<^verbatim>\<open>insertion_sort\<close> yields
  exactly once, whatever it shifted; a full run yields once for each \<open>i\<close> of
  \<^verbatim>\<open>range(1, len(lst))\<close>, which on a dataset (a non-empty list: a \<^verbatim>\<open>DrawInformation\<close>
  cannot hold an empty one) is \<open>n - 1\<close> times.
\<close>

theorem step_counts:
  "comparisons (bubble_sort xs asc) = length xs * (length xs - 1) div 2 \<and>
   (\<forall>i st. length (steps (insertion_outer asc i st)) = length (steps st) + 1) \<and>
   length (steps (insertion_sort xs asc)) = length [1..<length xs] \<and>
   (xs \<noteq> [] \<longrightarrow> int (length (steps (insertion_sort xs asc))) = int (length xs) - 1)"
proof -
  have "2 * comparisons (bubble_sort xs asc) = (length xs - 1) * (length xs - 1 + 1)"
    unfolding comparisons_bubble_sort by (rule sum_descending)
  also have "\<dots> = length xs * (length xs - 1)"
    by (cases xs) simp_all
  finally have "comparisons (bubble_sort xs asc) = length xs * (length xs - 1) div 2"
    by simp
  moreover have "int (length (steps (insertion_sort xs asc))) = int (length xs) - 1" if "xs \<noteq> []"
    using that by (cases xs) (simp_all add: length_steps_insertion_sort)
  ultimately show ?thesis
    by (simp add: steps_insertion_outer length_steps_insertion_sort)
qed

theorem step_counts_witness:
  "comparisons (bubble_sort [(''Lee'', 1), (''Smith'', 3), (''Jones'', 10), (''Kim'', 10)] True) = 6 \<and>
   moves (bubble_sort [(''Lee'', 1), (''Smith'', 3), (''Jones'', 10), (''Kim'', 10)] True) = 0 \<and>
   length (steps (insertion_sort [(''Lee'', 1), (''Smith'', 3), (''Jones'', 10), (''Kim'', 10)] False)) = 3 \<and>
   moves (insertion_sort [(''Lee'', 1), (''Smith'', 3), (''Jones'', 10), (''Kim'', 10)] False) = 5"
proof -
  have "moves (bubble_sort [(''Lee'', 1), (''Smith'', 3), (''Jones'', 10), (''Kim'', 10)] True) = 0"
    by code_simp
  moreover have "moves (insertion_sort [(''Lee'', 1), (''Smith'', 3), (''Jones'', 10), (''Kim'', 10)] False) = 5"
    by code_simp
  ultimately show ?thesis
    using step_counts [of "[(''Lee'', 1), (''Smith'', 3), (''Jones'', 10), (''Kim'', 10)]"]
    by simp
qed

text \<open>
  Claim C5. A complete run of either sort, in either direction, leaves a permutation
  of the input: the multiset of entries and the length are those of the input.
\<close>

theorem sorts_permute:
  "mset (cur (bubble_sort xs asc)) = mset xs \<and>
   length (cur (bubble_sort xs asc)) = length xs \<and>
   mset (cur (insertion_sort xs asc)) = mset xs \<and>
   length (cur (insertion_sort xs asc)) = length xs"
  using stable_perm_bubble_sort [of xs asc] stable_perm_insertion_sort [of xs asc]
  by (simp add: stable_perm_length) (simp add: stable_perm_def)

theorem sorts_permute_witness:
  "cur (bubble_sort [(''Ann'', 2), (''Bo'', 2), (''Cy'', 1)] True) = [(''Cy'', 1), (''Ann'', 2), (''Bo'', 2)] \<and>
   mset (cur (bubble_sort [(''Ann'', 2), (''Bo'', 2), (''Cy'', 1)] True)) = mset [(''Ann'', 2), (''Bo'', 2), (''Cy'', 1)] \<and>
   length (cur (insertion_sort [(''Ann'', 2), (''Bo'', 2), (''Cy'', 1)] False)) = 3"
proof -
  have "cur (bubble_sort [(''Ann'', 2), (''Bo'', 2), (''Cy'', 1)] True) = [(''Cy'', 1), (''Ann'', 2), (''Bo'', 2)]"
    by code_simp
  then show ?thesis
    using sorts_permute [of "[(''Ann'', 2), (''Bo'', 2), (''Cy'', 1)]"] by simp
qed

text \<open>
  Claim C7. Running a sort to completion and then the same sort again in the same
  direction leaves the list as the first run left it; the second run of
  \<^verbatim>\<open>bubble_sort\<close> swaps nothing and yields nothing, the second run of
  \<^verbatim>\<open>insertion_sort\<close> shifts nothing.
\<close>

theorem second_run_idle:
  "cur (bubble_sort (cur (bubble_sort xs asc)) asc) = cur (bubble_sort xs asc) \<and>
   moves (bubble_sort (cur (bubble_sort xs asc)) asc) = 0 \<and>
   steps (bubble_sort (cur (bubble_sort xs asc)) asc) = [] \<and>
   cur (insertion_sort (cur (insertion_sort xs asc)) asc) = cur (insertion_sort xs asc) \<and>
   moves (insertion_sort (cur (insertion_sort xs asc)) asc) = 0"
  using untouched_bubble_sort [OF sorted_wrt_bubble_sort [of asc xs]]
    insertion_sort_in_order [OF sorted_wrt_insertion_sort [of asc xs]]
  by (simp add: untouched_def)

theorem second_run_idle_witness:
  "moves (bubble_sort [(''Smith'', 3), (''Jones'', 10), (''Lee'', 1)] False) = 1 \<and>
   steps (bubble_sort (cur (bubble_sort [(''Smith'', 3), (''Jones'', 10), (''Lee'', 1)] False)) False) = [] \<and>
   moves (insertion_sort [(''Smith'', 3), (''Jones'', 10), (''Lee'', 1)] True) = 2 \<and>
   moves (insertion_sort (cur (insertion_sort [(''Smith'', 3), (''Jones'', 10), (''Lee'', 1)] True)) True) = 0"
proof -
  have "moves (bubble_sort [(''Smith'', 3), (''Jones'', 10), (''Lee'', 1)] False) = 1"
    by code_simp
  moreover have "moves (insertion_sort [(''Smith'', 3), (''Jones'', 10), (''Lee'', 1)] True) = 2"
    by code_simp
  ultimately show ?thesis
    using second_run_idle [of "[(''Smith'', 3), (''Jones'', 10), (''Lee'', 1)]"] by simp
qed

text \<open>
  Claim C10. Both sorts are stable in both directions: for every goal count \<open>g\<close>, the
  entries with \<open>g\<close> goals stand in the same order after a complete run as before.
\<close>

theorem sorts_stable:
  "filter (\<lambda>e. snd e = g) (cur (bubble_sort xs asc)) = filter (\<lambda>e. snd e = g) xs \<and>
   filter (\<lambda>e. snd e = g) (cur (insertion_sort xs asc)) = filter (\<lambda>e. snd e = g) xs"
  using stable_perm_bubble_sort [of xs asc] stable_perm_insertion_sort [of xs asc]
  by (simp add: stable_perm_def)

theorem sorts_stable_witness:
  "cur (bubble_sort [(''Ann'', 2), (''Cy'', 1), (''Bo'', 2), (''Di'', 1)] False) =
     [(''Ann'', 2), (''Bo'', 2), (''Cy'', 1), (''Di'', 1)] \<and>
   filter (\<lambda>e. snd e = 2) (cur (bubble_sort [(''Ann'', 2), (''Cy'', 1), (''Bo'', 2), (''Di'', 1)] False)) =
     [(''Ann'', 2), (''Bo'', 2)] \<and>
   filter (\<lambda>e. snd e = 1) (cur (insertion_sort [(''Ann'', 2), (''Cy'', 1), (''Bo'', 2), (''Di'', 1)] True)) =
     [(''Cy'', 1), (''Di'', 1)]"
proof -
  have "cur (bubble_sort [(''Ann'', 2), (''Cy'', 1), (''Bo'', 2), (''Di'', 1)] False) =
     [(''Ann'', 2), (''Bo'', 2), (''Cy'', 1), (''Di'', 1)]"
    by code_simp
  then show ?thesis
    using sorts_stable [of 2 "[(''Ann'', 2), (''Cy'', 1), (''Bo'', 2), (''Di'', 1)]" False]
      sorts_stable [of 1 "[(''Ann'', 2), (''Cy'', 1), (''Bo'', 2), (''Di'', 1)]" True]
    by simp
qed


section \<open>Geometry\<close>

lemma py_min_Inr: "vs \<noteq> [] \<Longrightarrow> py_min vs = Inr (Min (set vs))"
proof (cases vs)
  case (Cons v vs')
  then show ?thesis by (simp only: py_min.simps Min.set_eq_fold)
qed simp

lemma py_max_Inr: "vs \<noteq> [] \<Longrightarrow> py_max vs = Inr (Max (set vs))"
proof (cases vs)
  case (Cons v vs')
  then show ?thesis by (simp only: py_max.simps Max.set_eq_fold)
qed simp

lemma set_list_Inr:
  assumes "l \<noteq> []"
  shows "set_list self l =
     Inr (self\<lparr>lst := l, min_val := Min (set (map snd l)), max_val := Max (set (map snd l)),
               block_width := nearest (width self - SIDE_PAD) (int (length l)),
               block_height := (height self - TOP_PAD - BOTTOM_PAD) div divisor l,
               start_x := SIDE_PAD div 2\<rparr>)"
proof -
  have "map snd l \<noteq> []" and "int (length l) \<noteq> 0"
    using assms by simp_all
  moreover have "max 1 x \<noteq> 0" for x :: int
    by (simp add: max_def)
  ultimately show ?thesis
    unfolding set_list_def
    by (simp add: py_min_Inr py_max_Inr round_div_def floor_div_def Let_def nearest_def
        divisor_def del: set_map)
qed

lemma divisor_pos: "1 \<le> divisor l"
  by (simp add: divisor_def)

lemma nearest_bounds:
  assumes "0 < b"
  shows "2 * \<bar>nearest a b * b - a\<bar> \<le> b"
    and "nearest a b = a div b \<or> nearest a b = a div b + 1"
    and "nearest a b = a div b \<longleftrightarrow> 2 * (a mod b) < b \<or> (2 * (a mod b) = b \<and> even (a div b))"
proof -
  have eq: "a = a div b * b + a mod b" by simp
  have m: "0 \<le> a mod b" "a mod b < b" using assms by simp_all
  have "nearest a b * b - a = (nearest a b - a div b) * b - a mod b"
    using eq by (simp add: algebra_simps)
  then show "2 * \<bar>nearest a b * b - a\<bar> \<le> b"
    using m by (auto simp: nearest_def)
  show "nearest a b = a div b \<or> nearest a b = a div b + 1"
    by (simp add: nearest_def)
  show "nearest a b = a div b \<longleftrightarrow> 2 * (a mod b) < b \<or> (2 * (a mod b) = b \<and> even (a div b))"
    by (auto simp: nearest_def)
qed

lemma bar_height_eq:
  "bar_height d i e = BOTTOM_PAD + (snd e - min_val d) * block_height d"
  by (simp add: bar_height_def bar_rect_def Let_def)

lemma zero_range:
  assumes "l \<noteq> []" and "Max (snd ` set l) = Min (snd ` set l)" and "e \<in> set l"
  shows "snd e = Min (snd ` set l)"
proof -
  have "Min (snd ` set l) \<le> snd e" and "snd e \<le> Max (snd ` set l)"
    using assms(3) by simp_all
  with assms(2) show ?thesis by simp
qed

text \<open>
  Claim C3, as amended. For every non-empty dataset and window width, \<^verbatim>\<open>set_list\<close>
  succeeds and \<^verbatim>\<open>block_width\<close> is \<open>(width - SIDE_PAD) / count\<close> rounded to the nearest
  integer, a tie going to the even one (Python's \<^verbatim>\<open>round\<close>): it is within one half
  of the quotient, it is the floor or the floor plus one, and it is the floor exactly
  when the remainder is below half the count, or is half the count and the floor is
  even.
\<close>

theorem block_width_rounds:
  assumes "l \<noteq> []"
  shows "\<exists>d. set_list self l = Inr d \<and>
     2 * \<bar>block_width d * int (length l) - (width self - SIDE_PAD)\<bar> \<le> int (length l) \<and>
     (block_width d = (width self - SIDE_PAD) div int (length l) \<or>
      block_width d = (width self - SIDE_PAD) div int (length l) + 1) \<and>
     (block_width d = (width self - SIDE_PAD) div int (length l) \<longleftrightarrow>
        2 * ((width self - SIDE_PAD) mod int (length l)) < int (length l) \<or>
        2 * ((width self - SIDE_PAD) mod int (length l)) = int (length l) \<and>
        even ((width self - SIDE_PAD) div int (length l)))"
proof -
  have "0 < int (length l)" using assms by simp
  from nearest_bounds [OF this, of "width self - SIDE_PAD"] show ?thesis
    by (simp add: set_list_Inr [OF assms])
qed

theorem block_width_rounds_witness:
  "replicate 8 (''a'', 3) \<noteq> [] \<and>
   (\<exists>d. DrawInformation 1400 1000 (replicate 8 (''a'', 3)) = Inr d \<and> block_width d = 162 \<and>
      (1400 - SIDE_PAD) mod 8 = 4 \<and>
      2 * \<bar>block_width d * 8 - (1400 - SIDE_PAD)\<bar> \<le> 8)"
proof -
  have ne: "replicate 8 (''a'', 3::int) \<noteq> []" by simp
  have w: "block_width d = 162"
    if "DrawInformation 1400 1000 (replicate 8 (''a'', 3)) = Inr d" for d
  proof -
    have "DrawInformation 1400 1000 (replicate 8 (''a'', 3)) =
        Inr \<lparr>width = 1400, height = 1000, lst = replicate 8 (''a'', 3), min_val = 3, max_val = 3,
             block_width = 162, block_height = 700, start_x = 50\<rparr>"
      by code_simp
    with that show ?thesis by auto
  qed
  have m: "(1400 - SIDE_PAD) mod 8 = 4" by (simp add: SIDE_PAD_def)
  from block_width_rounds [OF ne, of "\<lparr>width = 1400, height = 1000, lst = [], min_val = 0, max_val = 0,
      block_width = 0, block_height = 0, start_x = 0\<rparr>"]
  show ?thesis
    using ne w m unfolding DrawInformation_def by auto
qed

text \<open>
  Claim C3 as stated fails: \<^verbatim>\<open>main\<close>'s window with seven entries gives
  \<open>round(1300 / 7) = 186\<close>, not the floor \<open>185\<close>.
\<close>

theorem block_width_not_floor:
  "DrawInformation 1400 1000 (replicate 7 (''a'', 3)) =
     Inr \<lparr>width = 1400, height = 1000, lst = replicate 7 (''a'', 3), min_val = 3, max_val = 3,
          block_width = 186, block_height = 700, start_x = 50\<rparr> \<and>
   (1400 - SIDE_PAD) div int (length (replicate 7 (''a'', 3::int))) = 185"
  by code_simp

text \<open>
  The sign of the scale is the sign of what the paddings leave of the window height.
\<close>

lemma block_height_at:
  assumes "l \<noteq> []"
  shows "\<exists>d. set_list self l = Inr d \<and>
     min_val d = Min (snd ` set l) \<and> max_val d = Max (snd ` set l) \<and>
     (0 \<le> block_height d \<longleftrightarrow> TOP_PAD + BOTTOM_PAD \<le> height self) \<and>
     (max_val d = min_val d \<longrightarrow>
        block_height d = height self - TOP_PAD - BOTTOM_PAD \<and>
        (\<forall>i. \<forall>e\<in>set l. bar_height d i e = 150))"
proof -
  let ?d = "self\<lparr>lst := l, min_val := Min (set (map snd l)), max_val := Max (set (map snd l)),
               block_width := nearest (width self - SIDE_PAD) (int (length l)),
               block_height := (height self - TOP_PAD - BOTTOM_PAD) div divisor l,
               start_x := SIDE_PAD div 2\<rparr>"
  have run: "set_list self l = Inr ?d" by (rule set_list_Inr [OF assms])
  have pos: "0 < divisor l" using divisor_pos [of l] by simp
  have sign: "0 \<le> block_height ?d \<longleftrightarrow> TOP_PAD + BOTTOM_PAD \<le> height self"
    using pos_imp_zdiv_nonneg_iff [OF pos, of "height self - TOP_PAD - BOTTOM_PAD"] by auto
  have mn: "min_val ?d = Min (snd ` set l)" and mx: "max_val ?d = Max (snd ` set l)"
    by simp_all
  have flat: "max_val ?d = min_val ?d \<longrightarrow>
      block_height ?d = height self - TOP_PAD - BOTTOM_PAD \<and>
      (\<forall>i. \<forall>e\<in>set l. bar_height ?d i e = 150)"
  proof
    assume "max_val ?d = min_val ?d"
    then have eq: "Max (snd ` set l) = Min (snd ` set l)" by simp
    then have "divisor l = 1" by (simp add: divisor_def)
    moreover have "snd e = Min (snd ` set l)" if "e \<in> set l" for e
      using assms eq that by (rule zero_range)
    ultimately show "block_height ?d = height self - TOP_PAD - BOTTOM_PAD \<and>
        (\<forall>i. \<forall>e\<in>set l. bar_height ?d i e = 150)"
      by (simp add: bar_height_eq BOTTOM_PAD_def)
  qed
  show ?thesis
    by (rule exI [of _ ?d], intro conjI) (rule run mn mx sign flat)+
qed

text \<open>
  Claim C4. \<^verbatim>\<open>main\<close> constructs its only \<^verbatim>\<open>DrawInformation\<close> with height 1000, and the
  height is never assigned again. For every non-empty dataset, on an object whose
  height exceeds \<open>TOP_PAD + BOTTOM_PAD\<close>, and so in \<^verbatim>\<open>main\<close>'s window, \<^verbatim>\<open>set_list\<close>
  raises nothing, so no \<^verbatim>\<open>ZeroDivisionError\<close>; \<^verbatim>\<open>block_height\<close> is \<open>\<ge> 0\<close>; and when the
  largest goal count equals the smallest, the divisor is 1, \<^verbatim>\<open>block_height\<close> is the
  positive value \<open>height - TOP_PAD - BOTTOM_PAD\<close> (700 in \<^verbatim>\<open>main\<close>'s window), and
  \<^verbatim>\<open>draw_list\<close> draws every bar with the same height 150.
\<close>

theorem block_height_scale:
  assumes "l \<noteq> []"
  shows "(TOP_PAD + BOTTOM_PAD < height self \<longrightarrow>
     (\<exists>d. set_list self l = Inr d \<and>
        min_val d = Min (snd ` set l) \<and> max_val d = Max (snd ` set l) \<and>
        0 \<le> block_height d \<and>
        (max_val d = min_val d \<longrightarrow>
           block_height d = height self - TOP_PAD - BOTTOM_PAD \<and> 0 < block_height d \<and>
           (\<forall>i. \<forall>e\<in>set l. bar_height d i e = 150)))) \<and>
   (\<exists>d. DrawInformation 1400 1000 l = Inr d \<and>
      min_val d = Min (snd ` set l) \<and> max_val d = Max (snd ` set l) \<and>
      0 \<le> block_height d \<and>
      (max_val d = min_val d \<longrightarrow>
         block_height d = 700 \<and> (\<forall>i. \<forall>e\<in>set l. bar_height d i e = 150)))"
proof -
  have tall: "\<exists>d. set_list self l = Inr d \<and>
        min_val d = Min (snd ` set l) \<and> max_val d = Max (snd ` set l) \<and>
        0 \<le> block_height d \<and>
        (max_val d = min_val d \<longrightarrow>
           block_height d = height self - TOP_PAD - BOTTOM_PAD \<and> 0 < block_height d \<and>
           (\<forall>i. \<forall>e\<in>set l. bar_height d i e = 150))"
    if h: "TOP_PAD + BOTTOM_PAD < height self" for self
  proof -
    from block_height_at [OF assms, of self] obtain d where
      run: "set_list self l = Inr d" and
      mn: "min_val d = Min (snd ` set l)" and mx: "max_val d = Max (snd ` set l)" and
      sign: "0 \<le> block_height d \<longleftrightarrow> TOP_PAD + BOTTOM_PAD \<le> height self" and
      flat: "max_val d = min_val d \<longrightarrow>
        block_height d = height self - TOP_PAD - BOTTOM_PAD \<and>
        (\<forall>i. \<forall>e\<in>set l. bar_height d i e = 150)"
      by blast
    from sign h have nonneg: "0 \<le> block_height d" by simp
    from flat h have flat': "max_val d = min_val d \<longrightarrow>
        block_height d = height self - TOP_PAD - BOTTOM_PAD \<and> 0 < block_height d \<and>
        (\<forall>i. \<forall>e\<in>set l. bar_height d i e = 150)"
      by simp
    show ?thesis
      by (rule exI [of _ d], intro conjI) (rule run mn mx nonneg flat')+
  qed
  let ?w = "\<lparr>width = 1400, height = 1000, lst = [], min_val = 0, max_val = 0,
      block_width = 0, block_height = 0, start_x = 0\<rparr>"
  have "TOP_PAD + BOTTOM_PAD < height ?w"
    by (simp add: TOP_PAD_def BOTTOM_PAD_def)
  from tall [OF this] obtain d where
    run: "set_list ?w l = Inr d" and
    mn: "min_val d = Min (snd ` set l)" and mx: "max_val d = Max (snd ` set l)" and
    nonneg: "0 \<le> block_height d" and
    flat: "max_val d = min_val d \<longrightarrow>
      block_height d = height ?w - TOP_PAD - BOTTOM_PAD \<and> 0 < block_height d \<and>
      (\<forall>i. \<forall>e\<in>set l. bar_height d i e = 150)"
    by blast
  from run have run': "DrawInformation 1400 1000 l = Inr d"
    by (simp add: DrawInformation_def)
  from flat have flat': "max_val d = min_val d \<longrightarrow>
      block_height d = 700 \<and> (\<forall>i. \<forall>e\<in>set l. bar_height d i e = 150)"
    by (simp add: TOP_PAD_def BOTTOM_PAD_def)
  have main: "\<exists>d. DrawInformation 1400 1000 l = Inr d \<and>
      min_val d = Min (snd ` set l) \<and> max_val d = Max (snd ` set l) \<and>
      0 \<le> block_height d \<and>
      (max_val d = min_val d \<longrightarrow>
         block_height d = 700 \<and> (\<forall>i. \<forall>e\<in>set l. bar_height d i e = 150))"
    by (rule exI [of _ d], intro conjI) (rule run' mn mx nonneg flat')+
  from tall main show ?thesis by blast
qed

theorem block_height_scale_witness:
  "[(''Ann'', 4), (''Bo'', 4)] \<noteq> [] \<and>
   (\<exists>d. DrawInformation 1400 1000 [(''Ann'', 4), (''Bo'', 4)] = Inr d \<and>
      max_val d = min_val d \<and> block_height d = 700 \<and>
      bar_height d 0 (''Ann'', 4) = 150 \<and> bar_height d 1 (''Bo'', 4) = 150) \<and>
   (\<exists>d. DrawInformation 1400 1000 [(''Ann'', 4), (''Bo'', 11)] = Inr d \<and>
      min_val d = 4 \<and> max_val d = 11 \<and> block_height d = 100 \<and>
      bar_height d 0 (''Ann'', 4) = 150 \<and> bar_height d 1 (''Bo'', 11) = 850)"
proof -
  have ne: "[(''Ann'', 4::int), (''Bo'', 4)] \<noteq> []" by simp
  have flat: "\<exists>d. DrawInformation 1400 1000 [(''Ann'', 4), (''Bo'', 4)] = Inr d \<and>
      max_val d = min_val d \<and> block_height d = 700 \<and>
      bar_height d 0 (''Ann'', 4) = 150 \<and> bar_height d 1 (''Bo'', 4) = 150"
  proof -
    from block_height_scale [OF ne, of "\<lparr>width = 1400, height = 1000, lst = [], min_val = 0,
      max_val = 0, block_width = 0, block_height = 0, start_x = 0\<rparr>", THEN conjunct2]
    obtain d where
      run: "DrawInformation 1400 1000 [(''Ann'', 4), (''Bo'', 4)] = Inr d" and
      mn: "min_val d = Min (snd ` set [(''Ann'', 4::int), (''Bo'', 4)])" and
      mx: "max_val d = Max (snd ` set [(''Ann'', 4::int), (''Bo'', 4)])" and
      same: "max_val d = min_val d \<longrightarrow> block_height d = 700 \<and>
        (\<forall>i. \<forall>e\<in>set [(''Ann'', 4), (''Bo'', 4)]. bar_height d i e = 150)"
      by blast
    from mn mx have eq: "max_val d = min_val d" by simp
    with same have "block_height d = 700"
      and "bar_height d 0 (''Ann'', 4) = 150" and "bar_height d 1 (''Bo'', 4) = 150"
      by simp_all
    with run eq show ?thesis by blast
  qed
  have "DrawInformation 1400 1000 [(''Ann'', 4), (''Bo'', 11)] =
      Inr \<lparr>width = 1400, height = 1000, lst = [(''Ann'', 4), (''Bo'', 11)], min_val = 4,
           max_val = 11, block_width = 650, block_height = 100, start_x = 50\<rparr>"
    by code_simp
  moreover have "bar_height \<lparr>width = 1400, height = 1000, lst = [(''Ann'', 4), (''Bo'', 11)],
      min_val = 4, max_val = 11, block_width = 650, block_height = 100, start_x = 50\<rparr> 0
      (''Ann'', 4) = 150"
    and "bar_height \<lparr>width = 1400, height = 1000, lst = [(''Ann'', 4), (''Bo'', 11)],
      min_val = 4, max_val = 11, block_width = 650, block_height = 100, start_x = 50\<rparr> 1
      (''Bo'', 11) = 850"
    by code_simp+
  ultimately have steep: "\<exists>d. DrawInformation 1400 1000 [(''Ann'', 4), (''Bo'', 11)] = Inr d \<and>
      min_val d = 4 \<and> max_val d = 11 \<and> block_height d = 100 \<and>
      bar_height d 0 (''Ann'', 4) = 150 \<and> bar_height d 1 (''Bo'', 11) = 850"
    by simp
  from ne flat steep show ?thesis by blast
qed


section \<open>Data source adapter: properties\<close>

lemma or_0_eq: "or_0 v = (case v of None \<Rightarrow> 0 | Some n \<Rightarrow> n)"
  by (cases v) (simp_all add: or_0_def)

lemma total_goals_sum:
  "total_goals p = (\<Sum>s\<leftarrow>statistics p. case goals_total s of None \<Rightarrow> 0 | Some n \<Rightarrow> n)"
  by (simp add: total_goals_def or_0_eq)

lemma total_appearances_sum:
  "total_appearances p = (\<Sum>s\<leftarrow>statistics p. case games_appearences s of None \<Rightarrow> 0 | Some n \<Rightarrow> n)"
  by (simp add: total_appearances_def or_0_eq)

lemma fold_add_player: "fold add_player players goal_list = goal_list @ scorers players"
  by (induction players arbitrary: goal_list)
    (simp_all add: scorers_def add_player_def total_goals_sum total_appearances_sum)

lemma fetch_loop_ends:
  assumes "ends (server page)"
  shows "fetch_loop server page goal_list = Some (Inr goal_list)"
  using assms
  by (subst fetch_loop.simps)
    (auto simp: ends_def page_players_def Let_def split: option.splits)

lemma fetch_loop_goes_on:
  assumes "goes_on (server page)"
  shows "fetch_loop server page goal_list =
     fetch_loop server (Suc page) (goal_list @ scorers (page_players (server page)))"
  using assms
  by (subst fetch_loop.simps)
    (auto simp: goes_on_def page_players_def Let_def fold_add_player split: option.splits)

lemma fetch_loop_returns:
  assumes "page \<le> k" and "\<forall>p. page \<le> p \<and> p < k \<longrightarrow> goes_on (server p)" and "ends (server k)"
  shows "fetch_loop server page goal_list =
     Some (Inr (goal_list @ concat (map (\<lambda>p. scorers (page_players (server p))) [page..<k])))"
  using assms
proof (induction "k - page" arbitrary: page goal_list)
  case 0
  then have "page = k" by simp
  with "0.prems" show ?case by (simp add: fetch_loop_ends)
next
  case (Suc n)
  then have lt: "page < k" by simp
  with Suc.prems have "goes_on (server page)" by simp
  then have "fetch_loop server page goal_list =
      fetch_loop server (Suc page) (goal_list @ scorers (page_players (server page)))"
    by (rule fetch_loop_goes_on)
  also have "\<dots> = Some (Inr ((goal_list @ scorers (page_players (server page))) @
      concat (map (\<lambda>p. scorers (page_players (server p))) [Suc page..<k])))"
    using Suc.hyps(2) Suc.prems lt by (intro Suc.hyps(1)) simp_all
  finally show ?case
    using lt by (simp add: upt_conv_Cons)
qed

text \<open>
  Conversely, the loop returns a list only on such a server: one that goes on for the
  pages from \<open>page\<close> up to some \<open>k\<close> and stops at \<open>k\<close>.
\<close>

lemma fetch_loop_returned:
  assumes "fetch_loop server page goal_list = Some (Inr result)"
  shows "\<exists>k\<ge>page. (\<forall>p. page \<le> p \<and> p < k \<longrightarrow> goes_on (server p)) \<and> ends (server k)"
proof -
  let ?P = "\<lambda>(server :: nat \<Rightarrow> player http_response) (page :: nat) (goal_list :: entry list)
      (y :: py_error + entry list).
      \<forall>result. y = Inr result \<longrightarrow>
        (\<exists>k\<ge>page. (\<forall>p. page \<le> p \<and> p < k \<longrightarrow> goes_on (server p)) \<and> ends (server k))"
  have "?P server page goal_list (Inr result)"
  proof (rule fetch_loop.raw_induct [where P = ?P, OF _ assms])
    fix fl :: "(nat \<Rightarrow> player http_response) \<Rightarrow> nat \<Rightarrow> entry list \<Rightarrow> (py_error + entry list) option"
    fix server page goal_list y
    assume IH: "\<And>s p g y. fl s p g = Some y \<Longrightarrow> ?P s p g y"
    assume eq: "(let resp = server page
      in if status_code resp \<noteq> 200 then Some (Inr goal_list)
         else case body resp of None \<Rightarrow> Some (Inl JSONDecodeError)
              | Some data \<Rightarrow>
                  let players = get_response data
                  in if players = [] \<and> page = 1 then Some (Inr goal_list)
                     else if players = [] then Some (Inr goal_list)
                          else fl server (page + 1) (fold add_player players goal_list)) =
     Some y"
    have stop: "\<exists>k\<ge>page. (\<forall>p. page \<le> p \<and> p < k \<longrightarrow> goes_on (server p)) \<and> ends (server k)"
      if "ends (server page)"
      using that by (intro exI [of _ page]) auto
    show "?P server page goal_list y"
    proof (cases "status_code (server page) = 200")
      case False
      then have "ends (server page)" by (simp add: ends_def)
      with stop show ?thesis by blast
    next
      case ok: True
      show ?thesis
      proof (cases "body (server page)")
        case None
        with ok eq have "y = Inl JSONDecodeError" by (simp add: Let_def)
        then show ?thesis by simp
      next
        case (Some data)
        show ?thesis
        proof (cases "get_response data = []")
          case True
          with Some have "ends (server page)" by (simp add: ends_def page_players_def)
          with stop show ?thesis by blast
        next
          case False
          with ok Some eq
          have "fl server (page + 1) (fold add_player (get_response data) goal_list) = Some y"
            by (simp add: Let_def)
          then have rest: "?P server (page + 1) (fold add_player (get_response data) goal_list) y"
            by (rule IH)
          have here: "goes_on (server page)"
            using ok Some False by (simp add: goes_on_def page_players_def)
          show ?thesis
          proof (intro allI impI)
            fix result
            assume "y = Inr result"
            with rest obtain k where k: "page + 1 \<le> k"
              and on: "\<forall>p. page + 1 \<le> p \<and> p < k \<longrightarrow> goes_on (server p)" and e: "ends (server k)"
              by blast
            have "goes_on (server p)" if "page \<le> p \<and> p < k" for p
            proof (cases "p = page")
              case True
              with here show ?thesis by simp
            next
              case False
              with that have "page + 1 \<le> p \<and> p < k" by simp
              with on show ?thesis by blast
            qed
            with k e show "\<exists>k\<ge>page. (\<forall>p. page \<le> p \<and> p < k \<longrightarrow> goes_on (server p)) \<and> ends (server k)"
              by (intro exI [of _ k]) auto
          qed
        qed
      qed
    qed
  qed
  then show ?thesis by simp
qed

text \<open>
  Claim C6. Let the server answer pages \<open>1, \<dots>, k - 1\<close> with status 200 and a non-empty
  player list, and page \<open>k\<close> with another status or an empty (or missing) list: these
  are the runs in which \<^verbatim>\<open>fetch_players_by_goals\<close> returns a list (on others it raises on
  a body that is not JSON, or asks for pages forever). It then returns at most 20
  entries; they are the first 20, in the order of the pages and of the players on
  each page, of the players whose goals and whose appearances, each summed over all
  statistics entries with a missing value counting 0, are both positive, whatever the
  goal counts of the later ones; and every entry returned is the name and the summed
  goals of a player of one of these pages whose two sums are positive.
\<close>

theorem fetch_first_twenty:
  assumes "1 \<le> k"
    and "\<forall>p. 1 \<le> p \<and> p < k \<longrightarrow> goes_on (endpoint team_id season_year p)"
    and "ends (endpoint team_id season_year k)"
  shows "\<exists>result. fetch_players_by_goals endpoint team_id season_year = Some (Inr result) \<and>
     length result \<le> 20 \<and>
     result = take 20 (concat (map (\<lambda>p. scorers (page_players (endpoint team_id season_year p)))
                [1..<k])) \<and>
     (\<forall>e\<in>set result. \<exists>p q. 1 \<le> p \<and> p < k \<and>
        q \<in> set (page_players (endpoint team_id season_year p)) \<and>
        e = (player_name q, \<Sum>s\<leftarrow>statistics q. case goals_total s of None \<Rightarrow> 0 | Some n \<Rightarrow> n) \<and>
        0 < (\<Sum>s\<leftarrow>statistics q. case goals_total s of None \<Rightarrow> 0 | Some n \<Rightarrow> n) \<and>
        0 < (\<Sum>s\<leftarrow>statistics q. case games_appearences s of None \<Rightarrow> 0 | Some n \<Rightarrow> n))"
proof -
  let ?server = "endpoint team_id season_year"
  let ?all = "concat (map (\<lambda>p. scorers (page_players (?server p))) [1..<k])"
  have "fetch_loop ?server 1 [] = Some (Inr ([] @ ?all))"
    using assms by (intro fetch_loop_returns) simp_all
  then have run: "fetch_players_by_goals endpoint team_id season_year = Some (Inr (take 20 ?all))"
    by (simp add: fetch_players_by_goals_def)
  have "\<exists>p q. 1 \<le> p \<and> p < k \<and> q \<in> set (page_players (?server p)) \<and>
        e = (player_name q, \<Sum>s\<leftarrow>statistics q. case goals_total s of None \<Rightarrow> 0 | Some n \<Rightarrow> n) \<and>
        0 < (\<Sum>s\<leftarrow>statistics q. case goals_total s of None \<Rightarrow> 0 | Some n \<Rightarrow> n) \<and>
        0 < (\<Sum>s\<leftarrow>statistics q. case games_appearences s of None \<Rightarrow> 0 | Some n \<Rightarrow> n)"
    if "e \<in> set (take 20 ?all)" for e
  proof -
    from that have "e \<in> set ?all" by (rule in_set_takeD)
    then obtain p where p: "p \<in> set [1..<k]" and e: "e \<in> set (scorers (page_players (?server p)))"
      by auto
    from e obtain q where "q \<in> set (page_players (?server p))"
      and "e = (player_name q, \<Sum>s\<leftarrow>statistics q. case goals_total s of None \<Rightarrow> 0 | Some n \<Rightarrow> n)"
      and "0 < (\<Sum>s\<leftarrow>statistics q. case goals_total s of None \<Rightarrow> 0 | Some n \<Rightarrow> n)"
      and "0 < (\<Sum>s\<leftarrow>statistics q. case games_appearences s of None \<Rightarrow> 0 | Some n \<Rightarrow> n)"
      by (auto simp: scorers_def)
    with p show ?thesis by auto
  qed
  with run show ?thesis by simp
qed

text \<open>
  On the sample server the source's sums are those of the data: 5 goals in 0
  appearances, 0 goals in 35 appearances, 7 goals in 2 appearances for the first three
  players of page 1. The first two are left out, the third and the first nineteen of
  the twenty players with 3 goals are kept, and the player of page 2 with 9 goals is
  not: the result is not the top 20 by goals.
\<close>

lemma late_scorer_pages:
  "goes_on (late_scorer 1)" "goes_on (late_scorer 2)" "ends (late_scorer 3)"
  by (simp_all add: goes_on_def ends_def late_scorer_def page_players_def get_response_def
      sample_page_1_def)

theorem fetch_first_twenty_witness:
  "fetch_players_by_goals (\<lambda>team_id season_year. late_scorer) 49 ''2024'' =
     Some (Inr ((''Ace'', 7) # replicate 19 (''Early'', 3))) \<and>
   map total_goals (take 3 sample_page_1) = [5, 0, 7] \<and>
   map total_appearances (take 3 sample_page_1) = [0, 35, 2] \<and>
   map total_goals (page_players (late_scorer 2)) = [9] \<and>
   map total_appearances (page_players (late_scorer 2)) = [3]"
proof -
  have pages: "\<forall>p. 1 \<le> p \<and> p < 3 \<longrightarrow> goes_on (late_scorer p)"
  proof (intro allI impI)
    fix p :: nat
    assume "1 \<le> p \<and> p < 3"
    then have "p = 1 \<or> p = 2" by auto
    then show "goes_on (late_scorer p)" using late_scorer_pages by auto
  qed
  have p1: "scorers (page_players (late_scorer 1)) = (''Ace'', 7) # replicate 20 (''Early'', 3)"
    by code_simp
  have p2: "scorers (page_players (late_scorer 2)) = [(''Late'', 9)]"
    by code_simp
  have "[1..<3] = [1, 2::nat]" by code_simp
  then have cut: "take 20 (concat (map (\<lambda>p. scorers (page_players (late_scorer p))) [1..<3])) =
      (''Ace'', 7) # replicate 19 (''Early'', 3)"
    using p1 p2 by (simp add: numeral_eq_Suc)
  have sums: "map total_goals (take 3 sample_page_1) = [5, 0, 7]"
    "map total_appearances (take 3 sample_page_1) = [0, 35, 2]"
    "map total_goals (page_players (late_scorer 2)) = [9]"
    "map total_appearances (page_players (late_scorer 2)) = [3]"
    by code_simp+
  from fetch_first_twenty [of 3 "\<lambda>team_id season_year. late_scorer" 49 "''2024''"]
    pages late_scorer_pages(3) cut
  have "fetch_players_by_goals (\<lambda>team_id season_year. late_scorer) 49 ''2024'' =
     Some (Inr ((''Ace'', 7) # replicate 19 (''Early'', 3)))"
    by auto
  with sums show ?thesis by simp
qed

text \<open>
  Claim C8. \<^verbatim>\<open>search_team\<close> sends exactly one request whatever the response. On a
  status other than 200 it returns the empty list without reading the body, so it
  raises nothing even when the body is not JSON; on status 200 with a JSON body whose
  \<^verbatim>\<open>"response"\<close> is missing or empty it returns the empty list.
\<close>

theorem search_team_no_data:
  "snd (search_team server team_name reqs) = reqs @ [team_name] \<and>
   (status_code (server team_name) \<noteq> 200 \<longrightarrow>
      fst (search_team server team_name reqs) = Inr []) \<and>
   (\<forall>data. status_code (server team_name) = 200 \<and> body (server team_name) = Some data \<and>
       (response data = None \<or> response data = Some []) \<longrightarrow>
       fst (search_team server team_name reqs) = Inr [])"
  by (auto simp: search_team_def Let_def get_response_def split: option.splits)

theorem search_team_no_data_witness:
  "search_team (\<lambda>n. \<lparr>status_code = 503, body = None\<rparr>) ''Chelsea'' [] = (Inr [], [''Chelsea'']) \<and>
   search_team (\<lambda>n. \<lparr>status_code = 200, body = Some \<lparr>response = None\<rparr>\<rparr>) ''Chelsea'' [''Leeds'']
     = (Inr [], [''Leeds'', ''Chelsea''])"
proof -
  let ?down = "\<lambda>n::string. \<lparr>status_code = 503, body = None :: team api_body option\<rparr>"
  let ?bare = "\<lambda>n::string. \<lparr>status_code = 200, body = Some \<lparr>response = None :: team list option\<rparr>\<rparr>"
  from search_team_no_data [of ?down "''Chelsea''" "[]"]
  have "search_team ?down ''Chelsea'' [] = (Inr [], [''Chelsea''])"
    by (simp add: prod_eq_iff)
  moreover from search_team_no_data [of ?bare "''Chelsea''" "[''Leeds'']"]
  have "search_team ?bare ''Chelsea'' [''Leeds''] = (Inr [], [''Leeds'', ''Chelsea''])"
    by (simp add: prod_eq_iff)
  ultimately show ?thesis by simp
qed

section \<open>Controller: properties\<close>

lemma sorting_ignores_keys:
  assumes "sorting c" and "k \<noteq> K_r"
  shows "handle_event c (KEYDOWN k) fresh = Inr c"
  using assms by (simp add: handle_event_def)

lemma reload_installs:
  assumes "fresh \<noteq> []"
  shows "\<exists>d. set_list (draw_info c) fresh = Inr d \<and> lst d = fresh \<and>
     handle_event c (KEYDOWN K_r) fresh =
       Inr (c\<lparr>raw_data := fresh, draw_info := d, sorting := False\<rparr>)"
  by (simp add: handle_event_def set_list_Inr [OF assms])

lemma reload_empty: "handle_event c (KEYDOWN K_r) [] = Inl ValueError"
  by (simp add: handle_event_def set_list_def)

lemma fetch_refused:
  "status_code (endpoint team_id season_year 1) \<noteq> 200 \<Longrightarrow>
   fetch_players_by_goals endpoint team_id season_year = Some (Inr [])"
  using fetch_loop_ends [of "endpoint team_id season_year" 1 "[]"]
  by (simp add: fetch_players_by_goals_def ends_def)

lemma advances_drain:
  assumes "sorting c" and "sorting_algorithm_generator c = Some g"
  shows "advances (Suc (length g)) c =
     Inr (c\<lparr>draw_info := (draw_info c)\<lparr>lst := last (lst (draw_info c) # g)\<rparr>,
            raw_data := last (raw_data c # g),
            sorting_algorithm_generator := Some [],
            sorting := False\<rparr>)"
  using assms
proof (induction g arbitrary: c)
  case Nil
  then show ?case by (simp add: advance_def)
next
  case (Cons l g)
  let ?c' = "c\<lparr>draw_info := (draw_info c)\<lparr>lst := l\<rparr>, raw_data := l,
      sorting_algorithm_generator := Some g\<rparr>"
  have step: "advance c = Inr ?c'"
    using Cons.prems by (simp add: advance_def)
  have "advances (Suc (length g)) ?c' =
     Inr (?c'\<lparr>draw_info := (draw_info ?c')\<lparr>lst := last (lst (draw_info ?c') # g)\<rparr>,
            raw_data := last (raw_data ?c' # g),
            sorting_algorithm_generator := Some [],
            sorting := False\<rparr>)"
    using Cons.prems by (intro Cons.IH) simp_all
  with step show ?case by simp
qed

text \<open>
  From the idle state, the start key and then as many iterations as the generator has
  yields, and one more, leave the list sorted as a complete run of the selected sort
  leaves it, and the controller idle again.
\<close>

lemma start_then_drain:
  assumes "\<not> sorting c" and "raw_data c = lst (draw_info c)"
  shows "\<exists>c1 r. handle_event c (KEYDOWN K_SPACE) fresh = Inr c1 \<and>
     r = (case sorting_algorithm c of
            Bubble \<Rightarrow> bubble_sort (lst (draw_info c)) (ascending c)
          | Insertion \<Rightarrow> insertion_sort (lst (draw_info c)) (ascending c)) \<and>
     advances (Suc (length (steps r))) c1 =
       Inr (c\<lparr>draw_info := (draw_info c)\<lparr>lst := cur r\<rparr>,
              raw_data := cur r,
              sorting_algorithm_generator := Some [],
              sorting := False\<rparr>)"
proof -
  let ?r = "case sorting_algorithm c of
            Bubble \<Rightarrow> bubble_sort (lst (draw_info c)) (ascending c)
          | Insertion \<Rightarrow> insertion_sort (lst (draw_info c)) (ascending c)"
  let ?c1 = "c\<lparr>sorting := True, sorting_algorithm_generator := Some (steps ?r)\<rparr>"
  have ev: "handle_event c (KEYDOWN K_SPACE) fresh = Inr ?c1"
    using assms(1)
    by (cases "sorting_algorithm c") (simp_all add: handle_event_def new_generator_def)
  have fin: "last (lst (draw_info c) # steps ?r) = cur ?r"
    using last_yield_bubble_sort [of "lst (draw_info c)" "ascending c"]
      last_yield_insertion_sort [of "lst (draw_info c)" "ascending c"]
    by (cases "sorting_algorithm c") (simp_all del: last.simps)
  then have fin': "last (raw_data c # steps ?r) = cur ?r"
    using assms(2) by simp
  have "advances (Suc (length (steps ?r))) ?c1 =
      Inr (?c1\<lparr>draw_info := (draw_info ?c1)\<lparr>lst := last (lst (draw_info ?c1) # steps ?r)\<rparr>,
            raw_data := last (raw_data ?c1 # steps ?r),
            sorting_algorithm_generator := Some [],
            sorting := False\<rparr>)"
    by (rule advances_drain) simp_all
  with fin fin' have "advances (Suc (length (steps ?r))) ?c1 =
       Inr (c\<lparr>draw_info := (draw_info c)\<lparr>lst := cur ?r\<rparr>,
              raw_data := cur ?r,
              sorting_algorithm_generator := Some [],
              sorting := False\<rparr>)"
    by (simp del: last.simps)
  with ev show ?thesis by blast
qed

text \<open>
  The window size is fixed when \<^verbatim>\<open>main\<close> constructs the \<^verbatim>\<open>DrawInformation\<close> and never
  changes, and \<^verbatim>\<open>raw_data\<close> is always the list of \<^verbatim>\<open>draw_info\<close>.
\<close>

lemma set_list_keeps:
  assumes "set_list self l = Inr d"
  shows "lst d = l" and "width d = width self" and "height d = height self"
proof -
  from assms have "l \<noteq> []" by (auto simp: set_list_def)
  from set_list_Inr [OF this, of self] assms
  show "lst d = l" and "width d = width self" and "height d = height self"
    by auto
qed

lemma initial_controller_window:
  assumes "initial_controller data = Some (Inr c)"
  shows "width (draw_info c) = 1400" and "height (draw_info c) = 1000"
    and "raw_data c = lst (draw_info c)"
proof -
  from assms obtain d where d: "DrawInformation 1400 1000 data = Inr d"
    and c: "draw_info c = d" "raw_data c = data"
    by (auto simp: initial_controller_def split: if_splits sum.splits)
  from d have "lst d = data" and "width d = 1400" and "height d = 1000"
    using set_list_keeps [of _ data d] by (simp_all add: DrawInformation_def)
  with c show "width (draw_info c) = 1400" and "height (draw_info c) = 1000"
    and "raw_data c = lst (draw_info c)"
    by simp_all
qed

lemma handle_event_window:
  assumes "handle_event c ev fresh = Inr c'"
  shows "width (draw_info c') = width (draw_info c)"
    and "height (draw_info c') = height (draw_info c)"
    and "raw_data c = lst (draw_info c) \<Longrightarrow> raw_data c' = lst (draw_info c')"
proof -
  have "width (draw_info c') = width (draw_info c) \<and>
      height (draw_info c') = height (draw_info c) \<and>
      (raw_data c = lst (draw_info c) \<longrightarrow> raw_data c' = lst (draw_info c'))"
  proof (cases ev)
    case (KEYDOWN k)
    show ?thesis
    proof (cases "k = K_r")
      case True
      with KEYDOWN assms obtain d where d: "set_list (draw_info c) fresh = Inr d"
        and c': "c' = c\<lparr>raw_data := fresh, draw_info := d, sorting := False\<rparr>"
        by (auto simp: handle_event_def split: sum.splits)
      from set_list_keeps [OF d] c' show ?thesis by simp
    next
      case False
      with KEYDOWN assms show ?thesis
        by (auto simp: handle_event_def split: if_splits)
    qed
  qed (use assms in \<open>auto simp: handle_event_def\<close>)
  then show "width (draw_info c') = width (draw_info c)"
    and "height (draw_info c') = height (draw_info c)"
    and "raw_data c = lst (draw_info c) \<Longrightarrow> raw_data c' = lst (draw_info c')"
    by simp_all
qed

lemma advance_window:
  assumes "advance c = Inr c'"
  shows "width (draw_info c') = width (draw_info c)"
    and "height (draw_info c') = height (draw_info c)"
    and "raw_data c = lst (draw_info c) \<Longrightarrow> raw_data c' = lst (draw_info c')"
  using assms by (auto simp: advance_def split: if_splits option.splits list.splits)

lemma initial_controller_idle:
  assumes "data \<noteq> []"
  shows "\<exists>c. initial_controller data = Some (Inr c) \<and> \<not> sorting c \<and> lst (draw_info c) = data"
  using assms by (simp add: initial_controller_def DrawInformation_def set_list_Inr)

lemma initial_controller_guard: "initial_controller [] = None"
  by (simp add: initial_controller_def)

lemma tick_sorting_keys:
  assumes "sorting c" and "sorting_algorithm_generator c = Some (l # rest)"
    and "\<forall>(ev, fresh)\<in>set evs. ev \<noteq> KEYDOWN K_r"
  shows "tick c evs =
     Inr (c\<lparr>draw_info := (draw_info c)\<lparr>lst := l\<rparr>, raw_data := l,
            sorting_algorithm_generator := Some rest,
            run := run c \<and> (\<forall>(ev, fresh)\<in>set evs. ev \<noteq> QUIT)\<rparr>)"
proof -
  have ev: "handle_event c' ev fresh = Inr (c'\<lparr>run := run c' \<and> ev \<noteq> QUIT\<rparr>)"
    if "sorting c'" and "ev \<noteq> KEYDOWN K_r" for c' ev fresh
  proof (cases ev)
    case (KEYDOWN k)
    with that show ?thesis by (simp add: handle_event_def)
  qed (simp_all add: handle_event_def)
  have evs: "handle_events c' evs = Inr (c'\<lparr>run := run c' \<and> (\<forall>(ev, fresh)\<in>set evs. ev \<noteq> QUIT)\<rparr>)"
    if "sorting c'" and "\<forall>(ev, fresh)\<in>set evs. ev \<noteq> KEYDOWN K_r" for c'
    using that
  proof (induction evs arbitrary: c')
    case Nil
    then show ?case by simp
  next
    case (Cons p evs)
    obtain e f where p: "p = (e, f)" by (cases p)
    with Cons.prems have "handle_event c' e f = Inr (c'\<lparr>run := run c' \<and> e \<noteq> QUIT\<rparr>)"
      by (intro ev) simp_all
    moreover have "handle_events (c'\<lparr>run := run c' \<and> e \<noteq> QUIT\<rparr>) evs =
        Inr (c'\<lparr>run := run c' \<and> e \<noteq> QUIT\<rparr>\<lparr>run := run (c'\<lparr>run := run c' \<and> e \<noteq> QUIT\<rparr>) \<and>
          (\<forall>(ev, fresh)\<in>set evs. ev \<noteq> QUIT)\<rparr>)"
      using Cons.prems by (intro Cons.IH) simp_all
    ultimately show ?case using p by simp
  qed
  show ?thesis
    using assms by (simp add: tick_def advance_def evs)
qed

text \<open>
  Claim C9. While sorting, every key but reload leaves the controller as it is
  (\<open>sorting_ignores_keys\<close>), and a reload that obtains a non-empty dataset installs
  it and clears \<^verbatim>\<open>sorting\<close> (\<open>reload_installs\<close>). But a reload that obtains an empty
  dataset does not lead to the idle state: \<^verbatim>\<open>set_list\<close> raises \<^verbatim>\<open>ValueError\<close> in
  \<^verbatim>\<open>min\<close> and the exception ends \<^verbatim>\<open>main\<close>. \<^verbatim>\<open>fetch_players_by_goals\<close> returns the
  empty list whenever the first page is refused. At startup \<^verbatim>\<open>main\<close> checks for empty
  data (\<open>initial_controller_guard\<close>); the reload path does not.
\<close>

theorem reload_without_data_raises:
  "fetch_players_by_goals (\<lambda>team_id season_year page. \<lparr>status_code = 429, body = None\<rparr>)
     49 ''2024'' = Some (Inr []) \<and>
   handle_event
     \<lparr>draw_info = \<lparr>width = 1400, height = 1000, lst = [(''Lee'', 1), (''Smith'', 3)],
                   min_val = 1, max_val = 3, block_width = 650, block_height = 350,
                   start_x = 50\<rparr>,
      raw_data = [(''Smith'', 3), (''Lee'', 1)], run = True, sorting = True, ascending = True,
      sorting_algorithm = Bubble, sorting_algo_name = ''Bubble Sort'',
      sorting_algorithm_generator = Some []\<rparr>
     (KEYDOWN K_r) [] = Inl ValueError"
  by (simp add: fetch_refused reload_empty)

end
